theory Spec2Isabelle
  imports Main
begin

section \<open>Strings and the library calls the converter relies on\<close>

text \<open>
  The converter \<^verbatim>\<open>convert-poems.py\<close> works on Python \<^verbatim>\<open>str\<close> values. A paragraph is
  modelled as a \<^typ>\<open>string\<close>, one \<^typ>\<open>char\<close> per code point, for the code points
  below 256. On these, \<^verbatim>\<open>str.strip()\<close> and the regular expression class \<^verbatim>\<open>\s\<close> agree on
  what whitespace is (tab to carriage return, the four separators 0x1C to 0x1F, space,
  0x85 and 0xA0), and \<^verbatim>\<open>\d\<close> is the ten ASCII digits.
\<close>

definition isspace :: "char \<Rightarrow> bool" where
  "isspace c =
     (let n = (of_char c :: nat)
      in (9 \<le> n \<and> n \<le> 13) \<or> (28 \<le> n \<and> n \<le> 32) \<or> n = 133 \<or> n = 160)"

definition isdigit :: "char \<Rightarrow> bool" where
  "isdigit c = (let n = (of_char c :: nat) in 48 \<le> n \<and> n \<le> 57)"

definition isdot :: "char \<Rightarrow> bool" where
  "isdot c = (c = CHR ''.'')"

text \<open>\<^verbatim>\<open>s.strip()\<close>: whitespace removed at both ends.\<close>

definition strip :: "string \<Rightarrow> string" where
  "strip s = rev (dropWhile isspace (rev (dropWhile isspace s)))"

text \<open>\<^verbatim>\<open>s.replace(' ', '_')\<close>, for the one pair of arguments the converter uses.\<close>

definition replace_space :: "string \<Rightarrow> string" where
  "replace_space s = map (\<lambda>c. if c = CHR '' '' then CHR ''_'' else c) s"

text \<open>
  \<^verbatim>\<open>s.zfill(width)\<close>: zeros on the left up to the width, after a leading sign if there is
  one; a string that is long enough is returned as it is.
\<close>

definition zfill :: "nat \<Rightarrow> string \<Rightarrow> string" where
  "zfill width s =
     (if width \<le> length s then s
      else (case s of
              [] \<Rightarrow> replicate width CHR ''0''
            | c # cs \<Rightarrow>
                if c = CHR ''+'' \<or> c = CHR ''-''
                then c # replicate (width - length s) CHR ''0'' @ cs
                else replicate (width - length s) CHR ''0'' @ s))"

text \<open>
  \<^verbatim>\<open>os.path.join(a, b)\<close> with POSIX separators, for two components.
\<close>

definition os_path_join :: "string \<Rightarrow> string \<Rightarrow> string" where
  "os_path_join a b =
     (if b \<noteq> [] \<and> hd b = CHR ''/'' then b
      else if a = [] \<or> last a = CHR ''/'' then a @ b
      else a @ ''/'' @ b)"

subsection \<open>The fragment of \<^verbatim>\<open>re\<close> that the patterns use\<close>

text \<open>
  Every pattern of the converter is a sequence of quantified character classes. The
  matcher is the backtracking one of \<^verbatim>\<open>re\<close>: for an item and a subject it lists the
  remainders the item can leave, the preferred (greedy) one first.
\<close>

datatype item =
    ZeroOrMore "char \<Rightarrow> bool"
  | OneOrMore "char \<Rightarrow> bool"
  | Optional "char \<Rightarrow> bool"

fun rests_while :: "(char \<Rightarrow> bool) \<Rightarrow> string \<Rightarrow> string list" where
  "rests_while p [] = [Nil]"
| "rests_while p (c # cs) = (if p c then rests_while p cs @ [c # cs] else [c # cs])"

fun item_rests :: "item \<Rightarrow> string \<Rightarrow> string list" where
  "item_rests (ZeroOrMore p) s = rests_while p s"
| "item_rests (OneOrMore p) [] = []"
| "item_rests (OneOrMore p) (c # cs) = (if p c then rests_while p cs else [])"
| "item_rests (Optional p) [] = [Nil]"
| "item_rests (Optional p) (c # cs) = (if p c then [cs, c # cs] else [c # cs])"

fun seq_rests :: "item list \<Rightarrow> string \<Rightarrow> string list" where
  "seq_rests [] s = [s]"
| "seq_rests (i # is) s = concat (map (seq_rests is) (item_rests i s))"

text \<open>
  \<^verbatim>\<open>$\<close> without the MULTILINE flag holds at the end of the subject and just before a
  newline that ends it.
\<close>

definition at_dollar :: "string \<Rightarrow> bool" where
  "at_dollar s = (s = [] \<or> s = ''\<newline>'')"

text \<open>\<^verbatim>\<open>bool(re.match('^' items '$', s))\<close>.\<close>

definition re_match_anchored :: "item list \<Rightarrow> string \<Rightarrow> bool" where
  "re_match_anchored items s = list_ex at_dollar (seq_rests items s)"

text \<open>
  \<^verbatim>\<open>re.search(items, s)\<close>, then \<^verbatim>\<open>.group()\<close> of the match: the leftmost start at which the
  items match, with the preferred remainder there. \<^term>\<open>None\<close> is Python's \<^verbatim>\<open>None\<close>.
\<close>

fun re_search :: "item list \<Rightarrow> string \<Rightarrow> string option" where
  "re_search items [] = (case seq_rests items [] of [] \<Rightarrow> None | r # _ \<Rightarrow> Some [])"
| "re_search items (c # cs) =
     (case seq_rests items (c # cs) of
        [] \<Rightarrow> re_search items cs
      | r # _ \<Rightarrow> Some (take (length (c # cs) - length r) (c # cs)))"

text \<open>
  \<^verbatim>\<open>re.sub(r'[<>:"/\\|?*]', '', s)\<close>: every character of the class is replaced by the empty
  string.
\<close>

definition invalid_char :: "char \<Rightarrow> bool" where
  "invalid_char c = (c \<in> set [CHR ''<'', CHR ''>'', CHR '':'', CHR 0x22, CHR ''/'',
                               CHR 0x5C, CHR ''|'', CHR ''?'', CHR ''*''])"

definition re_sub_invalid :: "string \<Rightarrow> string" where
  "re_sub_invalid s = filter (\<lambda>c. \<not> invalid_char c) s"

section \<open>The converter\<close>

subsection \<open>Configuration\<close>

definition INPUT_FILE :: string where
  "INPUT_FILE = ''Reality-a-colorful-illusion.docx''"

definition OUTPUT_FOLDER :: string where
  "OUTPUT_FOLDER = ''markdown_poems''"

definition AUTHOR_NAME :: string where
  "AUTHOR_NAME = ''Urangani T.M''"

subsection \<open>\<^verbatim>\<open>sanitize_filename\<close> and \<^verbatim>\<open>is_poem_number\<close>\<close>

text \<open>
  \<^verbatim>\<open>if not title\<close> holds for \<^verbatim>\<open>None\<close> and for the empty string.
\<close>

definition sanitize_filename :: "string option \<Rightarrow> string" where
  "sanitize_filename title =
     (case title of
        None \<Rightarrow> ''Untitled''
      | Some t \<Rightarrow>
          if t = [] then ''Untitled''
          else take 50 (replace_space (strip (re_sub_invalid t))))"

definition poem_number_pattern :: "item list" where
  "poem_number_pattern = [ZeroOrMore isspace, OneOrMore isdigit, Optional isdot, ZeroOrMore isspace]"

definition is_poem_number :: "string \<Rightarrow> bool" where
  "is_poem_number text = re_match_anchored poem_number_pattern text"

subsection \<open>Data\<close>

text \<open>
  \<^verbatim>\<open>current_poem\<close> is a dictionary with four fixed keys; \<^verbatim>\<open>number\<close> is the matched text,
  a string.
\<close>

record poem =
  number :: string
  title :: "string option"
  lines :: "string list"
  has_author_sig :: bool

text \<open>The local variables of the scanning loop.\<close>

record scan_state =
  poems :: "poem list"
  front_matter :: "string list"
  current_poem :: "poem option"
  first_poem_found :: bool

text \<open>
  \<^verbatim>\<open>re.search(...)\<close> returns \<^verbatim>\<open>None\<close> when nothing matches, and \<^verbatim>\<open>.group()\<close> on it raises.
\<close>

datatype error = AttributeError

text \<open>The \<^verbatim>\<open>print\<close> calls, one constructor for each.\<close>

datatype message =
    ErrorNotFound string
  | Reading string
  | Saved string
  | Finished nat string

text \<open>
  What the run leaves behind: the lines printed, the directories created and the files
  written, each with path and content, in the order of the writes. A later write to a
  path replaces the earlier one.
\<close>

record world =
  console :: "message list"
  dirs :: "string list"
  writes :: "(string \<times> string) list"

text \<open>
  The input file, as \<^verbatim>\<open>os.path.exists\<close> and \<^verbatim>\<open>Document\<close> see it: absent, or a document
  with its paragraphs' \<^verbatim>\<open>text\<close> in order.
\<close>

datatype input_file = Missing | Docx "string list"

subsection \<open>Scanning the paragraphs\<close>

definition init_state :: scan_state where
  "init_state = \<lparr>poems = [], front_matter = [], current_poem = None, first_poem_found = False\<rparr>"

text \<open>The body of \<^verbatim>\<open>for para in doc.paragraphs\<close>.\<close>

definition process_para :: "scan_state \<Rightarrow> string \<Rightarrow> error + scan_state" where
  "process_para s para =
     (let text = strip para in
      if is_poem_number text then
        (case re_search [OneOrMore isdigit] text of
           None \<Rightarrow> Inl AttributeError
         | Some num \<Rightarrow>
             Inr (s\<lparr>poems := (case current_poem s of None \<Rightarrow> poems s | Some cp \<Rightarrow> poems s @ [cp]),
                    first_poem_found := True,
                    current_poem :=
                      Some \<lparr>number = num, title = None, lines = [], has_author_sig = False\<rparr>\<rparr>))
      else if \<not> first_poem_found s then
        Inr (if text \<noteq> [] \<or> front_matter s \<noteq> []
             then s\<lparr>front_matter := front_matter s @ [para]\<rparr> else s)
      else
        (case current_poem s of
           None \<Rightarrow> Inr s
         | Some cp \<Rightarrow>
             if text = AUTHOR_NAME
             then Inr (s\<lparr>current_poem := Some (cp\<lparr>has_author_sig := True\<rparr>)\<rparr>)
             else Inr (s\<lparr>current_poem :=
                          Some (cp\<lparr>title := (if title cp = None \<and> text \<noteq> []
                                              then Some text else title cp),
                                   lines := lines cp @ [para]\<rparr>)\<rparr>)))"

fun scan :: "scan_state \<Rightarrow> string list \<Rightarrow> error + scan_state" where
  "scan s [] = Inr s"
| "scan s (para # paras) =
     (case process_para s para of Inl e \<Rightarrow> Inl e | Inr s' \<Rightarrow> scan s' paras)"

text \<open>\<^verbatim>\<open>if current_poem: poems.append(current_poem)\<close> after the loop.\<close>

definition add_last_poem :: "scan_state \<Rightarrow> scan_state" where
  "add_last_poem s =
     (case current_poem s of None \<Rightarrow> s | Some cp \<Rightarrow> s\<lparr>poems := poems s @ [cp]\<rparr>)"

subsection \<open>Writing the files\<close>

definition front_matter_text :: "string list \<Rightarrow> string" where
  "front_matter_text fm =
     ''# Front Matter\<newline>\<newline>'' @ concat (map (\<lambda>line. line @ ''  \<newline>'') fm)"

definition save_front_matter :: "string list \<Rightarrow> world \<Rightarrow> world" where
  "save_front_matter fm w =
     (if fm \<noteq> []
      then w\<lparr>writes := writes w @
                 [(os_path_join OUTPUT_FOLDER ''00_Front_Matter.md'', front_matter_text fm)],
             console := console w @ [Saved ''00_Front_Matter.md'']\<rparr>
      else w)"

definition has_content :: "poem \<Rightarrow> bool" where
  "has_content p = list_ex (\<lambda>line. strip line \<noteq> []) (lines p)"

definition poem_filename :: "poem \<Rightarrow> string" where
  "poem_filename p = zfill 3 (number p) @ ''_'' @ sanitize_filename (title p) @ ''.md''"

definition body_line :: "string \<Rightarrow> string" where
  "body_line line = (if strip line = [] then ''\<newline>'' else line @ ''  \<newline>'')"

definition signature_text :: string where
  "signature_text = ''\<newline>\<newline>*'' @ AUTHOR_NAME @ ''*''"

text \<open>
  A title that is \<^verbatim>\<open>None\<close> or empty counts as absent in the conditional expressions.
\<close>

definition title_or :: "string option \<Rightarrow> string \<Rightarrow> string" where
  "title_or t d = (case t of None \<Rightarrow> d | Some x \<Rightarrow> if x = [] then d else x)"

definition poem_text :: "poem \<Rightarrow> string" where
  "poem_text p =
     ''---\<newline>''
     @ ''title: '' @ [CHR 0x22] @ title_or (title p) ''Untitled'' @ [CHR 0x22] @ ''\<newline>''
     @ ''author: '' @ [CHR 0x22] @ AUTHOR_NAME @ [CHR 0x22] @ ''\<newline>''
     @ ''id: '' @ number p @ ''\<newline>''
     @ ''---\<newline>\<newline>''
     @ ''# '' @ title_or (title p) (''Poem '' @ number p) @ ''\<newline>\<newline>''
     @ concat (map body_line (lines p))
     @ (if has_author_sig p then signature_text else [])"

text \<open>
  \<^verbatim>\<open>for poem in poems\<close>, with the world and \<^verbatim>\<open>saved_count\<close> threaded through.
\<close>

fun save_poems :: "poem list \<Rightarrow> world \<times> nat \<Rightarrow> world \<times> nat" where
  "save_poems [] st = st"
| "save_poems (p # ps) (w, saved_count) =
     (if \<not> has_content p then save_poems ps (w, saved_count)
      else save_poems ps
             (w\<lparr>writes := writes w @
                   [(os_path_join OUTPUT_FOLDER (poem_filename p), poem_text p)],
                console := console w @ [Saved (poem_filename p)]\<rparr>,
              saved_count + 1))"

subsection \<open>\<^verbatim>\<open>convert_word_to_md\<close>\<close>

definition empty_world :: world where
  "empty_world = \<lparr>console = [], dirs = [], writes = []\<rparr>"

text \<open>The scanning part of \<^verbatim>\<open>convert_word_to_md\<close>: the loop and the last poem.\<close>

definition segment :: "string list \<Rightarrow> error + scan_state" where
  "segment paragraphs =
     (case scan init_state paragraphs of Inl e \<Rightarrow> Inl e | Inr s \<Rightarrow> Inr (add_last_poem s))"

definition convert_word_to_md :: "input_file \<Rightarrow> error + world" where
  "convert_word_to_md inp =
     (case inp of
        Missing \<Rightarrow> Inr (empty_world\<lparr>console := [ErrorNotFound INPUT_FILE]\<rparr>)
      | Docx paragraphs \<Rightarrow>
          (let w0 = empty_world\<lparr>dirs := [OUTPUT_FOLDER], console := [Reading INPUT_FILE]\<rparr>
           in case segment paragraphs of
                Inl e \<Rightarrow> Inl e
              | Inr s \<Rightarrow>
                  (let w1 = save_front_matter (front_matter s) w0;
                       (w2, saved_count) = save_poems (poems s) (w1, 0)
                   in Inr (w2\<lparr>console := console w2 @ [Finished saved_count OUTPUT_FOLDER]\<rparr>))))"

subsection \<open>Reading a number\<close>

text \<open>
  The integer that a string of digits denotes (Python's \<^verbatim>\<open>int(num)\<close>). The converter never
  computes it; it is what the specification's reading of \<^verbatim>\<open>number\<close> as an integer means.
\<close>

definition digit_value :: "char \<Rightarrow> nat" where
  "digit_value c = of_char c - 48"

definition decimal_value :: "string \<Rightarrow> nat" where
  "decimal_value s = foldl (\<lambda>n c. 10 * n + digit_value c) 0 s"

subsection \<open>What the scan guarantees of a poem record\<close>

text \<open>
  A poem record as the scan builds it: the number is made of digits and a title, when there
  is one, is not empty.
\<close>

definition well_formed :: "poem \<Rightarrow> bool" where
  "well_formed p = (list_all isdigit (number p) \<and> title p \<noteq> Some [])"

section \<open>Character classes and the matcher\<close>

lemma space_not_digit: "isspace c \<Longrightarrow> \<not> isdigit c"
  by (auto simp: isspace_def isdigit_def Let_def)

lemma newline_space: "isspace CHR ''\<newline>''"
  by (simp add: isspace_def)

lemma rests_while_self: "s \<in> set (rests_while p s)"
  by (cases s) auto

lemma rests_while_append: "list_all p xs \<Longrightarrow> ys \<in> set (rests_while p (xs @ ys))"
  by (induction xs) (auto simp: rests_while_self)

lemma rests_while_sound:
  "r \<in> set (rests_while p s) \<Longrightarrow> \<exists>pre. s = pre @ r \<and> list_all p pre"
proof (induction s)
  case Nil
  then show ?case by simp
next
  case (Cons c cs)
  show ?case
  proof (cases "r = c # cs")
    case True
    then show ?thesis by simp
  next
    case False
    with Cons.prems have "p c" and "r \<in> set (rests_while p cs)"
      by (auto split: if_splits)
    then obtain pre where "cs = pre @ r" "list_all p pre"
      using Cons.IH by blast
    then have "c # cs = (c # pre) @ r \<and> list_all p (c # pre)"
      using \<open>p c\<close> by simp
    then show ?thesis by blast
  qed
qed

lemma hd_rests_while:
  "rests_while p s \<noteq> [] \<and> hd (rests_while p s) = dropWhile p s"
  by (induction s) auto

lemma zero_or_more_complete:
  "list_all p xs \<Longrightarrow> ys \<in> set (item_rests (ZeroOrMore p) (xs @ ys))"
  by (simp add: rests_while_append)

lemma one_or_more_complete:
  "xs \<noteq> [] \<Longrightarrow> list_all p xs \<Longrightarrow> ys \<in> set (item_rests (OneOrMore p) (xs @ ys))"
  by (cases xs) (auto simp: rests_while_append)

lemma optional_complete:
  "xs = [] \<or> (\<exists>c. xs = [c] \<and> p c) \<Longrightarrow> ys \<in> set (item_rests (Optional p) (xs @ ys))"
  by (cases ys) auto

lemma zero_or_more_sound:
  "r \<in> set (item_rests (ZeroOrMore p) s) \<Longrightarrow> \<exists>pre. s = pre @ r \<and> list_all p pre"
  by (simp add: rests_while_sound)

lemma one_or_more_sound:
  "r \<in> set (item_rests (OneOrMore p) s) \<Longrightarrow> \<exists>pre. s = pre @ r \<and> pre \<noteq> [] \<and> list_all p pre"
proof (cases s)
  case Nil
  assume "r \<in> set (item_rests (OneOrMore p) s)"
  with Nil show ?thesis by simp
next
  case (Cons c cs)
  assume "r \<in> set (item_rests (OneOrMore p) s)"
  with Cons have "p c" and "r \<in> set (rests_while p cs)"
    by (auto split: if_splits)
  then obtain pre where "cs = pre @ r" "list_all p pre"
    using rests_while_sound by blast
  then have "s = (c # pre) @ r \<and> c # pre \<noteq> [] \<and> list_all p (c # pre)"
    using \<open>p c\<close> Cons by simp
  then show ?thesis by blast
qed

lemma optional_sound:
  "r \<in> set (item_rests (Optional p) s) \<Longrightarrow>
   \<exists>pre. s = pre @ r \<and> (pre = [] \<or> (\<exists>c. pre = [c] \<and> p c))"
  by (cases s) (auto split: if_splits)

lemma seq_rests_step:
  "r \<in> set (item_rests i s) \<Longrightarrow> r' \<in> set (seq_rests is r) \<Longrightarrow> r' \<in> set (seq_rests (i # is) s)"
  by auto

lemma concat_seq_rests_Nil: "concat (map (seq_rests []) xs) = xs"
  by (induction xs) auto

lemma seq_rests_single: "seq_rests [i] s = item_rests i s"
  by (simp add: concat_seq_rests_Nil)

lemma pattern_complete:
  assumes "list_all isspace ws" "ds \<noteq> []" "list_all isdigit ds"
    "dot = [] \<or> dot = ''.''" "list_all isspace ws'"
  shows "[] \<in> set (seq_rests poem_number_pattern (ws @ ds @ dot @ ws'))"
proof -
  have 4: "[] \<in> set (seq_rests [ZeroOrMore isspace] ws')"
    using zero_or_more_complete [OF assms(5), of "[]"] by (simp add: seq_rests_single)
  have "dot = [] \<or> (\<exists>c. dot = [c] \<and> isdot c)"
    using assms(4) by (auto simp: isdot_def)
  then have 3: "[] \<in> set (seq_rests [Optional isdot, ZeroOrMore isspace] (dot @ ws'))"
    using seq_rests_step [OF optional_complete 4] by blast
  have 2: "[] \<in> set (seq_rests [OneOrMore isdigit, Optional isdot, ZeroOrMore isspace]
                        (ds @ dot @ ws'))"
    using seq_rests_step [OF one_or_more_complete [OF assms(2,3)] 3] .
  show ?thesis
    unfolding poem_number_pattern_def
    using seq_rests_step [OF zero_or_more_complete [OF assms(1)] 2] .
qed

lemma pattern_sound:
  assumes "r \<in> set (seq_rests poem_number_pattern s)"
  shows "\<exists>ws ds dot ws'. s = ws @ ds @ dot @ ws' @ r \<and> list_all isspace ws \<and> ds \<noteq> [] \<and>
           list_all isdigit ds \<and> (dot = [] \<or> dot = ''.'') \<and> list_all isspace ws'"
proof -
  from assms obtain r1 r2 r3 where
    1: "r1 \<in> set (item_rests (ZeroOrMore isspace) s)" and
    2: "r2 \<in> set (item_rests (OneOrMore isdigit) r1)" and
    3: "r3 \<in> set (item_rests (Optional isdot) r2)" and
    4: "r \<in> set (item_rests (ZeroOrMore isspace) r3)"
    unfolding poem_number_pattern_def by (auto simp del: item_rests.simps)
  from zero_or_more_sound [OF 1] obtain ws where ws: "s = ws @ r1" "list_all isspace ws"
    by blast
  from one_or_more_sound [OF 2] obtain ds where
    ds: "r1 = ds @ r2" "ds \<noteq> []" "list_all isdigit ds" by blast
  from optional_sound [OF 3] obtain dot where
    dot: "r2 = dot @ r3" "dot = [] \<or> (\<exists>c. dot = [c] \<and> isdot c)" by blast
  from zero_or_more_sound [OF 4] obtain ws' where
    ws': "r3 = ws' @ r" "list_all isspace ws'" by blast
  have "dot = [] \<or> dot = ''.''"
    using dot(2) by (auto simp: isdot_def)
  with ws ds dot(1) ws' show ?thesis by auto
qed

lemma is_poem_number_iff:
  "is_poem_number text \<longleftrightarrow>
   (\<exists>ws ds dot ws'. text = ws @ ds @ dot @ ws' \<and> list_all isspace ws \<and> ds \<noteq> [] \<and>
      list_all isdigit ds \<and> (dot = [] \<or> dot = ''.'') \<and> list_all isspace ws')"
  (is "?L \<longleftrightarrow> ?R")
proof
  assume ?L
  then obtain r where r: "r \<in> set (seq_rests poem_number_pattern text)" "at_dollar r"
    by (auto simp: is_poem_number_def re_match_anchored_def list_ex_iff)
  from pattern_sound [OF r(1)] obtain ws ds dot ws' where
    d: "text = ws @ ds @ dot @ ws' @ r" "list_all isspace ws" "ds \<noteq> []"
       "list_all isdigit ds" "dot = [] \<or> dot = ''.''" "list_all isspace ws'"
    by blast
  have "list_all isspace r"
    using r(2) by (auto simp: at_dollar_def newline_space)
  then have "list_all isspace (ws' @ r)"
    using d(6) by simp
  with d show ?R by blast
next
  assume ?R
  then obtain ws ds dot ws' where
    d: "text = ws @ ds @ dot @ ws'" "list_all isspace ws" "ds \<noteq> []"
       "list_all isdigit ds" "dot = [] \<or> dot = ''.''" "list_all isspace ws'"
    by blast
  have "[] \<in> set (seq_rests poem_number_pattern text)"
    unfolding d(1) using pattern_complete [OF d(2-6)] .
  then show ?L
    by (auto simp: is_poem_number_def re_match_anchored_def list_ex_iff at_dollar_def)
qed

section \<open>Stripping and the number of a marker\<close>

lemma all_dropWhile: "(\<forall>x\<in>set (dropWhile P s). P x) \<longleftrightarrow> (\<forall>x\<in>set s. P x)"
  by (induction s) auto

lemma strip_blank: "strip s = [] \<longleftrightarrow> list_all isspace s"
  by (simp add: strip_def dropWhile_eq_Nil_conv list_all_iff all_dropWhile)

lemma strip_core:
  assumes "list_all isspace ws" "list_all isspace ws'" "core \<noteq> []"
    "\<not> isspace (hd core)" "\<not> isspace (last core)"
  shows "strip (ws @ core @ ws') = core"
proof -
  have 1: "dropWhile isspace (ws @ core @ ws') = core @ ws'"
    using assms(1,3,4) by (cases core) (auto simp: dropWhile_append3 list_all_iff dropWhile_append)
  have 2: "dropWhile isspace (rev ws' @ rev core) = rev core"
    using assms(2,3,5) by (cases core rule: rev_cases) (auto simp: list_all_iff dropWhile_append)
  show ?thesis
    by (simp add: strip_def 1 2)
qed

lemma strip_ends:
  "strip s = [] \<or> (\<not> isspace (hd (strip s)) \<and> \<not> isspace (last (strip s)))"
proof (cases "strip s = []")
  case True
  then show ?thesis by simp
next
  case False
  let ?t = "dropWhile isspace s"
  let ?u = "dropWhile isspace (rev ?t)"
  have u: "?u \<noteq> []" using False by (simp add: strip_def)
  then have hu: "\<not> isspace (hd ?u)" by (rule hd_dropWhile)
  have t: "?t \<noteq> []"
  proof
    assume a: "?t = []"
    show False using u unfolding a by simp
  qed
  then have ht: "\<not> isspace (hd ?t)" by (rule hd_dropWhile)
  have "last (strip s) = hd ?u" using u by (simp add: strip_def last_rev)
  moreover have "hd (strip s) = hd ?t"
  proof -
    obtain pre where pre: "rev ?t = pre @ ?u"
      by (metis takeWhile_dropWhile_id)
    then have "?t = rev ?u @ rev pre"
      by (metis rev_append rev_rev_ident)
    then have "hd ?t = hd (rev ?u)" using u by (metis hd_append2 rev_is_Nil_conv)
    then show ?thesis by (simp add: strip_def)
  qed
  ultimately show ?thesis using hu ht by simp
qed

lemma strip_marker:
  assumes "list_all isspace ws" "ds \<noteq> []" "list_all isdigit ds"
    "dot = [] \<or> dot = ''.''" "list_all isspace ws'"
  shows "strip (ws @ ds @ dot @ ws') = ds @ dot"
proof -
  have "isdigit (hd ds)" "isdigit (last ds)"
    using assms(2,3) by (simp_all add: list_all_iff)
  then have "\<not> isspace (hd ds)" "\<not> isspace (last ds)"
    using space_not_digit by blast+
  moreover have "\<not> isspace CHR ''.''" by (simp add: isspace_def)
  ultimately have "\<not> isspace (hd (ds @ dot))" "\<not> isspace (last (ds @ dot))"
    using assms(2,4) by auto
  from strip_core [OF assms(1,5) _ this] assms(2) show ?thesis by simp
qed

lemma re_search_digits:
  assumes "list_all (\<lambda>c. \<not> isdigit c) ws" "ds \<noteq> []" "list_all isdigit ds"
    "rest = [] \<or> \<not> isdigit (hd rest)"
  shows "re_search [OneOrMore isdigit] (ws @ ds @ rest) = Some ds"
  using assms(1)
proof (induction ws)
  case Nil
  obtain d ds' where ds: "ds = d # ds'" using assms(2) by (cases ds) auto
  have d: "isdigit d" "list_all isdigit ds'" using assms(3) ds by auto
  have dw: "dropWhile isdigit (ds' @ rest) = rest"
    using d(2) assms(4) by (cases rest) (auto simp: dropWhile_append list_all_iff)
  obtain r rs where r: "rests_while isdigit (ds' @ rest) = r # rs"
    using hd_rests_while [of isdigit "ds' @ rest"] by (cases "rests_while isdigit (ds' @ rest)") auto
  then have "r = rest"
    using hd_rests_while [of isdigit "ds' @ rest"] dw by simp
  then show ?case
    using ds d(1) r by (simp add: seq_rests_single)
next
  case (Cons c ws)
  then show ?case
    by (simp add: seq_rests_single)
qed

lemma marker_stripped:
  assumes "is_poem_number (strip para)"
  shows "\<exists>ds. ds \<noteq> [] \<and> list_all isdigit ds \<and> (strip para = ds \<or> strip para = ds @ ''.'')"
proof -
  from assms obtain ws ds dot ws' where
    d: "strip para = ws @ ds @ dot @ ws'" "list_all isspace ws" "ds \<noteq> []"
       "list_all isdigit ds" "dot = [] \<or> dot = ''.''" "list_all isspace ws'"
    unfolding is_poem_number_iff by blast
  have ne: "strip para \<noteq> []" using d(1,3) by simp
  with strip_ends [of para] have e: "\<not> isspace (hd (strip para))" "\<not> isspace (last (strip para))"
    by auto
  have "ws = []"
  proof (rule ccontr)
    assume "ws \<noteq> []"
    then have "hd (strip para) = hd ws" "isspace (hd ws)"
      using d(1,2) by (cases ws; simp)+
    with e(1) show False by simp
  qed
  moreover have "ws' = []"
  proof (rule ccontr)
    assume "ws' \<noteq> []"
    then have "last (strip para) = last ws'" "isspace (last ws')"
      using d(1,6) by (cases ws' rule: rev_cases; simp)+
    with e(2) show False by simp
  qed
  ultimately show ?thesis using d by auto
qed

lemma digits_of_marker:
  assumes "ds \<noteq> []" "list_all isdigit ds" "text = ds \<or> text = ds @ ''.''"
  shows "re_search [OneOrMore isdigit] text = Some ds"
proof -
  from assms(3) obtain rest where r: "text = [] @ ds @ rest" "rest = [] \<or> \<not> isdigit (hd rest)"
    by (auto simp: isdigit_def)
  show ?thesis
    unfolding r(1) by (rule re_search_digits [OF _ assms(1,2) r(2)]) simp
qed

section \<open>One paragraph, and a run of paragraphs\<close>

lemma process_para_marker:
  assumes "is_poem_number (strip para)"
  shows "\<exists>ds. ds \<noteq> [] \<and> list_all isdigit ds \<and> (strip para = ds \<or> strip para = ds @ ''.'') \<and>
           process_para s para =
             Inr (s\<lparr>poems := (case current_poem s of None \<Rightarrow> poems s | Some cp \<Rightarrow> poems s @ [cp]),
                    first_poem_found := True,
                    current_poem :=
                      Some \<lparr>number = ds, title = None, lines = [], has_author_sig = False\<rparr>\<rparr>)"
proof -
  from marker_stripped [OF assms] obtain ds where
    ds: "ds \<noteq> []" "list_all isdigit ds" "strip para = ds \<or> strip para = ds @ ''.''"
    by blast
  have "re_search [OneOrMore isdigit] (strip para) = Some ds"
    by (rule digits_of_marker [OF ds])
  then have "process_para s para =
             Inr (s\<lparr>poems := (case current_poem s of None \<Rightarrow> poems s | Some cp \<Rightarrow> poems s @ [cp]),
                    first_poem_found := True,
                    current_poem :=
                      Some \<lparr>number = ds, title = None, lines = [], has_author_sig = False\<rparr>\<rparr>)"
    using assms by (simp add: process_para_def)
  with ds show ?thesis by blast
qed

lemma process_para_front:
  assumes "\<not> is_poem_number (strip para)" "\<not> first_poem_found s"
  shows "process_para s para =
           Inr (if strip para \<noteq> [] \<or> front_matter s \<noteq> []
                then s\<lparr>front_matter := front_matter s @ [para]\<rparr> else s)"
  using assms by (simp add: process_para_def)

lemma process_para_content:
  assumes "\<not> is_poem_number (strip para)" "first_poem_found s" "current_poem s = Some cp"
  shows "process_para s para =
           Inr (s\<lparr>current_poem := Some
                  (if strip para = AUTHOR_NAME then cp\<lparr>has_author_sig := True\<rparr>
                   else cp\<lparr>title := (if title cp = None \<and> strip para \<noteq> []
                                       then Some (strip para) else title cp),
                            lines := lines cp @ [para]\<rparr>)\<rparr>)"
  using assms by (auto simp: process_para_def Let_def)

lemma process_para_total: "\<exists>s'. process_para s para = Inr s'"
proof (cases "is_poem_number (strip para)")
  case True
  from process_para_marker [OF True, of s] show ?thesis by blast
next
  case False
  then show ?thesis
    by (simp add: process_para_def Let_def split: option.split)
qed

lemma scan_total: "\<exists>s'. scan s paras = Inr s'"
proof (induction paras arbitrary: s)
  case Nil
  show ?case by simp
next
  case (Cons para paras)
  obtain s1 where "process_para s para = Inr s1"
    using process_para_total by blast
  with Cons [of s1] show ?case by simp
qed

lemma scan_append:
  "scan s (xs @ ys) = (case scan s xs of Inl e \<Rightarrow> Inl e | Inr s' \<Rightarrow> scan s' ys)"
  by (induction xs arbitrary: s) (auto split: sum.splits)

lemma author_not_marker: "\<not> is_poem_number AUTHOR_NAME"
proof
  assume "is_poem_number AUTHOR_NAME"
  then obtain ws ds dot ws' where
    d: "AUTHOR_NAME = ws @ ds @ dot @ ws'" "list_all isspace ws" "ds \<noteq> []"
       "list_all isdigit ds" "dot = [] \<or> dot = ''.''" "list_all isspace ws'"
    unfolding is_poem_number_iff by blast
  have "CHR ''U'' \<in> set AUTHOR_NAME" by (simp add: AUTHOR_NAME_def)
  then have "CHR ''U'' \<in> set ws \<union> set ds \<union> set dot \<union> set ws'"
    unfolding d(1) by simp
  moreover have "\<not> isspace CHR ''U''" "\<not> isdigit CHR ''U''"
    by (simp_all add: isspace_def isdigit_def)
  ultimately show False
    using d(2,4,5,6) by (auto simp: list_all_iff)
qed

lemma empty_not_marker: "\<not> is_poem_number []"
  by (simp add: is_poem_number_iff)

lemma scan_in_poem:
  assumes "first_poem_found s" "current_poem s = Some cp"
    "list_all (\<lambda>p. \<not> is_poem_number (strip p)) ps"
  shows "scan s ps =
           Inr (s\<lparr>current_poem := Some
                  (cp\<lparr>title := (case title cp of
                                   Some t \<Rightarrow> Some t
                                 | None \<Rightarrow> map_option strip
                                     (find (\<lambda>p. strip p \<noteq> [] \<and> strip p \<noteq> AUTHOR_NAME) ps)),
                       lines := lines cp @ filter (\<lambda>p. strip p \<noteq> AUTHOR_NAME) ps,
                       has_author_sig :=
                         has_author_sig cp \<or> list_ex (\<lambda>p. strip p = AUTHOR_NAME) ps\<rparr>)\<rparr>)"
  using assms
proof (induction ps arbitrary: s cp)
  case Nil
  show ?case using Nil.prems(2)
    by (cases s; cases cp; cases "title cp") auto
next
  case (Cons para ps)
  let ?cp1 = "if strip para = AUTHOR_NAME then cp\<lparr>has_author_sig := True\<rparr>
              else cp\<lparr>title := (if title cp = None \<and> strip para \<noteq> []
                                  then Some (strip para) else title cp),
                       lines := lines cp @ [para]\<rparr>"
  let ?s1 = "s\<lparr>current_poem := Some ?cp1\<rparr>"
  have nm: "\<not> is_poem_number (strip para)" and rest: "list_all (\<lambda>p. \<not> is_poem_number (strip p)) ps"
    using Cons.prems(3) by simp_all
  have step: "process_para s para = Inr ?s1"
    by (rule process_para_content [OF nm Cons.prems(1,2)])
  have f1: "first_poem_found ?s1" using Cons.prems(1) by simp
  have c1: "current_poem ?s1 = Some ?cp1" by simp
  have "scan s (para # ps) = scan ?s1 ps"
    using step by simp
  also note Cons.IH [OF f1 c1 rest]
  finally show ?case
    by (cases "title cp") (auto simp: Let_def)
qed

lemma scan_front:
  assumes "\<not> first_poem_found s" "list_all (\<lambda>p. \<not> is_poem_number (strip p)) ps"
  shows "scan s ps =
           Inr (s\<lparr>front_matter := front_matter s @
                  (if front_matter s = [] then dropWhile (\<lambda>p. strip p = []) ps else ps)\<rparr>)"
  using assms
proof (induction ps arbitrary: s)
  case Nil
  then show ?case by simp
next
  case (Cons para ps)
  let ?s1 = "if strip para \<noteq> [] \<or> front_matter s \<noteq> []
             then s\<lparr>front_matter := front_matter s @ [para]\<rparr> else s"
  have nm: "\<not> is_poem_number (strip para)" and rest: "list_all (\<lambda>p. \<not> is_poem_number (strip p)) ps"
    using Cons.prems(2) by simp_all
  have step: "process_para s para = Inr ?s1"
    by (rule process_para_front [OF nm Cons.prems(1)])
  have f1: "\<not> first_poem_found ?s1" using Cons.prems(1) by simp
  have "scan s (para # ps) = scan ?s1 ps"
    using step by simp
  also note Cons.IH [OF f1 rest]
  finally show ?case
    by auto
qed

lemma process_para_keeps_front:
  assumes "first_poem_found s" "process_para s para = Inr s'"
  shows "first_poem_found s' \<and> front_matter s' = front_matter s"
proof (cases "is_poem_number (strip para)")
  case True
  from process_para_marker [OF True, of s] assms(2) show ?thesis by auto
next
  case False
  then show ?thesis
    using assms by (auto simp: process_para_def Let_def split: option.splits if_splits)
qed

lemma scan_keeps_front:
  assumes "first_poem_found s" "scan s ps = Inr s'"
  shows "first_poem_found s' \<and> front_matter s' = front_matter s"
  using assms
proof (induction ps arbitrary: s)
  case Nil
  then show ?case by simp
next
  case (Cons para ps)
  obtain s1 where s1: "process_para s para = Inr s1"
    using process_para_total by blast
  from process_para_keeps_front [OF Cons.prems(1) s1]
  have k: "first_poem_found s1" "front_matter s1 = front_matter s" by simp_all
  have "scan s1 ps = Inr s'" using Cons.prems(2) s1 by simp
  from Cons.IH [OF k(1) this] k(2) show ?case by simp
qed

section \<open>Saving the poems\<close>

lemma save_poems_eq:
  "save_poems ps (w, n) =
     (w\<lparr>writes := writes w @
           map (\<lambda>p. (os_path_join OUTPUT_FOLDER (poem_filename p), poem_text p))
             (filter has_content ps),
        console := console w @ map (\<lambda>p. Saved (poem_filename p)) (filter has_content ps)\<rparr>,
      n + length (filter has_content ps))"
proof (induction ps arbitrary: w n)
  case Nil
  show ?case by simp
next
  case (Cons p ps)
  show ?case
  proof (cases "has_content p")
    case True
    then show ?thesis by (simp add: Cons.IH)
  next
    case False
    then show ?thesis by (simp add: Cons.IH)
  qed
qed

lemma has_content_iff: "has_content p \<longleftrightarrow> \<not> list_all (list_all isspace) (lines p)"
  by (simp add: has_content_def list_ex_iff list_all_iff strip_blank)

lemma has_content_fun: "has_content = (\<lambda>p. \<not> list_all (list_all isspace) (lines p))"
  by (rule ext) (rule has_content_iff)

section \<open>The text of a poem file\<close>

lemma body_ends_newline:
  "concat (map body_line ls) = [] \<or> last (concat (map body_line ls)) = CHR ''\<newline>''"
proof (induction ls rule: rev_induct)
  case Nil
  show ?case by simp
next
  case (snoc l ls)
  have "body_line l \<noteq> [] \<and> last (body_line l) = CHR ''\<newline>''"
    by (simp add: body_line_def)
  then show ?case by simp
qed

lemma poem_text_signed:
  assumes "has_author_sig p"
  shows "\<exists>pre. poem_text p = pre @ ''\<newline>'' @ ''\<newline>\<newline>*Urangani T.M*''"
proof -
  let ?b = "concat (map body_line (lines p))"
  let ?h = "''---\<newline>''
     @ ''title: '' @ [CHR 0x22] @ title_or (title p) ''Untitled'' @ [CHR 0x22] @ ''\<newline>''
     @ ''author: '' @ [CHR 0x22] @ AUTHOR_NAME @ [CHR 0x22] @ ''\<newline>''
     @ ''id: '' @ number p @ ''\<newline>''
     @ ''---\<newline>\<newline>''
     @ ''# '' @ title_or (title p) (''Poem '' @ number p) @ ''\<newline>''"
  have "\<exists>x. ''\<newline>'' @ ?b = x @ ''\<newline>''"
  proof (cases "?b = []")
    case True
    have "''\<newline>'' @ ?b = [] @ ''\<newline>''"
      unfolding True by simp
    then show ?thesis by blast
  next
    case False
    with body_ends_newline [of "lines p"] have "?b = butlast ?b @ ''\<newline>''"
      by (metis append_butlast_last_id)
    then have "''\<newline>'' @ ?b = (''\<newline>'' @ butlast ?b) @ ''\<newline>''"
      by simp
    then show ?thesis by blast
  qed
  then obtain x where x: "''\<newline>'' @ ?b = x @ ''\<newline>''" by blast
  have "poem_text p = ?h @ (''\<newline>'' @ ?b) @ signature_text"
    using assms by (simp add: poem_text_def)
  also have "\<dots> = (?h @ x) @ ''\<newline>'' @ ''\<newline>\<newline>*Urangani T.M*''"
    unfolding x by (simp add: signature_text_def AUTHOR_NAME_def)
  finally show ?thesis by blast
qed

section \<open>A poem from its marker to its end\<close>

lemma scan_poem:
  assumes "is_poem_number (strip m)" "list_all (\<lambda>p. \<not> is_poem_number (strip p)) ps"
  shows "\<exists>ds. ds \<noteq> [] \<and> list_all isdigit ds \<and> (strip m = ds \<or> strip m = ds @ ''.'') \<and>
           scan s (m # ps) =
             Inr (s\<lparr>poems := (case current_poem s of None \<Rightarrow> poems s | Some cp \<Rightarrow> poems s @ [cp]),
                    first_poem_found := True,
                    current_poem := Some
                      \<lparr>number = ds,
                       title = map_option strip
                                 (find (\<lambda>p. strip p \<noteq> [] \<and> strip p \<noteq> AUTHOR_NAME) ps),
                       lines = filter (\<lambda>p. strip p \<noteq> AUTHOR_NAME) ps,
                       has_author_sig = list_ex (\<lambda>p. strip p = AUTHOR_NAME) ps\<rparr>\<rparr>)"
proof -
  let ?fresh = "\<lambda>ds. \<lparr>number = ds, title = None, lines = [], has_author_sig = False\<rparr>"
  let ?s1 = "\<lambda>ds. s\<lparr>poems := (case current_poem s of None \<Rightarrow> poems s | Some cp \<Rightarrow> poems s @ [cp]),
                    first_poem_found := True, current_poem := Some (?fresh ds)\<rparr>"
  from process_para_marker [OF assms(1), of s] obtain ds where
    ds: "ds \<noteq> []" "list_all isdigit ds" "strip m = ds \<or> strip m = ds @ ''.''"
        "process_para s m = Inr (?s1 ds)"
    by blast
  have f: "first_poem_found (?s1 ds)" and c: "current_poem (?s1 ds) = Some (?fresh ds)"
    by simp_all
  have "scan s (m # ps) = scan (?s1 ds) ps"
    using ds(4) by simp
  also note scan_in_poem [OF f c assms(2)]
  finally have "scan s (m # ps) =
             Inr (s\<lparr>poems := (case current_poem s of None \<Rightarrow> poems s | Some cp \<Rightarrow> poems s @ [cp]),
                    first_poem_found := True,
                    current_poem := Some
                      \<lparr>number = ds,
                       title = map_option strip
                                 (find (\<lambda>p. strip p \<noteq> [] \<and> strip p \<noteq> AUTHOR_NAME) ps),
                       lines = filter (\<lambda>p. strip p \<noteq> AUTHOR_NAME) ps,
                       has_author_sig = list_ex (\<lambda>p. strip p = AUTHOR_NAME) ps\<rparr>\<rparr>)"
    by simp
  with ds(1-3) show ?thesis by blast
qed

section \<open>Front matter\<close>

lemma segment_front:
  assumes "list_all (\<lambda>p. \<not> is_poem_number (strip p)) pre"
    "rest = [] \<or> is_poem_number (strip (hd rest))"
  shows "\<exists>s. segment (pre @ rest) = Inr s \<and>
           front_matter s = dropWhile (\<lambda>p. strip p = []) pre \<and>
           (rest = [] \<longrightarrow> poems s = [] \<and> current_poem s = None)"
proof -
  let ?fm = "dropWhile (\<lambda>p. strip p = []) pre"
  let ?s1 = "init_state\<lparr>front_matter := ?fm\<rparr>"
  have "\<not> first_poem_found init_state" by (simp add: init_state_def)
  from scan_front [OF this assms(1)] have pre: "scan init_state pre = Inr ?s1"
    by (simp add: init_state_def)
  show ?thesis
  proof (cases rest)
    case Nil
    have "segment (pre @ rest) = Inr ?s1"
      using pre Nil by (simp add: segment_def add_last_poem_def init_state_def)
    then show ?thesis
      by (simp add: init_state_def)
  next
    case (Cons m rest')
    with assms(2) have m: "is_poem_number (strip m)" by simp
    from process_para_marker [OF m, of ?s1] obtain s2 where
      s2: "process_para ?s1 m = Inr s2" "first_poem_found s2" "front_matter s2 = ?fm"
      by auto
    obtain s3 where s3: "scan s2 rest' = Inr s3"
      using scan_total by blast
    from scan_keeps_front [OF s2(2) s3] s2(3) have fm: "front_matter s3 = ?fm"
      by simp
    have "scan init_state (pre @ rest) = Inr s3"
      using pre s2(1) s3 Cons by (simp add: scan_append)
    then have "segment (pre @ rest) = Inr (add_last_poem s3)"
      by (simp add: segment_def)
    moreover have "front_matter (add_last_poem s3) = ?fm"
      using fm by (simp add: add_last_poem_def split: option.split)
    ultimately show ?thesis using Cons by simp
  qed
qed

lemma convert_no_marker:
  assumes "list_all (\<lambda>p. \<not> is_poem_number (strip p)) ps"
  shows "convert_word_to_md (Docx ps) =
           Inr \<lparr>console = Reading INPUT_FILE #
                   (if dropWhile (\<lambda>p. strip p = []) ps = [] then []
                    else [Saved ''00_Front_Matter.md''])
                   @ [Finished 0 OUTPUT_FOLDER],
                dirs = [OUTPUT_FOLDER],
                writes =
                  (if dropWhile (\<lambda>p. strip p = []) ps = [] then []
                   else [(''markdown_poems/00_Front_Matter.md'',
                          front_matter_text (dropWhile (\<lambda>p. strip p = []) ps))])\<rparr>"
proof -
  from segment_front [OF assms, of "[]"] obtain s where
    s: "segment ps = Inr s" "front_matter s = dropWhile (\<lambda>p. strip p = []) ps" "poems s = []"
    by auto
  have j: "os_path_join OUTPUT_FOLDER ''00_Front_Matter.md'' = ''markdown_poems/00_Front_Matter.md''"
    by (simp add: os_path_join_def OUTPUT_FOLDER_def)
  show ?thesis
    by (simp add: convert_word_to_md_def s save_front_matter_def empty_world_def j)
qed

section \<open>A poem of signatures and blank lines\<close>

lemma blank_or_author_not_marker:
  assumes "list_all (\<lambda>p. strip p = [] \<or> strip p = AUTHOR_NAME) ps"
  shows "list_all (\<lambda>p. \<not> is_poem_number (strip p)) ps"
  using assms empty_not_marker author_not_marker by (auto simp: list_all_iff)

lemma signature_only_lines:
  assumes "list_all (\<lambda>p. strip p = [] \<or> strip p = AUTHOR_NAME) ps"
  shows "list_all (\<lambda>l. strip l = []) (filter (\<lambda>p. strip p \<noteq> AUTHOR_NAME) ps)"
  using assms by (auto simp: list_all_iff)

lemma signature_only_title:
  assumes "list_all (\<lambda>p. strip p = [] \<or> strip p = AUTHOR_NAME) ps"
  shows "find (\<lambda>p. strip p \<noteq> [] \<and> strip p \<noteq> AUTHOR_NAME) ps = None"
  using assms by (auto simp: find_None_iff list_all_iff)

section \<open>File names\<close>

lemma process_para_wf:
  assumes "list_all well_formed (poems s)" "\<forall>cp. current_poem s = Some cp \<longrightarrow> well_formed cp"
    "process_para s para = Inr s'"
  shows "list_all well_formed (poems s') \<and> (\<forall>cp. current_poem s' = Some cp \<longrightarrow> well_formed cp)"
proof (cases "is_poem_number (strip para)")
  case True
  from process_para_marker [OF True, of s] assms show ?thesis
    by (auto simp: well_formed_def split: option.splits)
next
  case False
  then show ?thesis
    using assms
    by (auto simp: process_para_def Let_def well_formed_def split: option.splits if_splits)
qed

lemma scan_wf:
  assumes "list_all well_formed (poems s)" "\<forall>cp. current_poem s = Some cp \<longrightarrow> well_formed cp"
    "scan s ps = Inr s'"
  shows "list_all well_formed (poems s') \<and> (\<forall>cp. current_poem s' = Some cp \<longrightarrow> well_formed cp)"
  using assms
proof (induction ps arbitrary: s)
  case Nil
  then show ?case by simp
next
  case (Cons para ps)
  obtain s1 where s1: "process_para s para = Inr s1"
    using process_para_total by blast
  from process_para_wf [OF Cons.prems(1,2) s1]
  have w: "list_all well_formed (poems s1)" "\<forall>cp. current_poem s1 = Some cp \<longrightarrow> well_formed cp"
    by simp_all
  have "scan s1 ps = Inr s'" using Cons.prems(3) s1 by simp
  from Cons.IH [OF w this] show ?case .
qed

lemma segment_wf:
  assumes "segment ps = Inr s"
  shows "list_all well_formed (poems s)"
proof -
  obtain s0 where s0: "scan init_state ps = Inr s0"
    using scan_total by blast
  have "list_all well_formed (poems init_state)"
    "\<forall>cp. current_poem init_state = Some cp \<longrightarrow> well_formed cp"
    by (simp_all add: init_state_def)
  from scan_wf [OF this s0]
  have "list_all well_formed (poems s0)" "\<forall>cp. current_poem s0 = Some cp \<longrightarrow> well_formed cp"
    by simp_all
  then have "list_all well_formed (poems (add_last_poem s0))"
    by (simp add: add_last_poem_def split: option.split)
  moreover have "s = add_last_poem s0"
    using assms s0 by (simp add: segment_def)
  ultimately show ?thesis by simp
qed

lemma segment_total: "\<exists>s. segment ps = Inr s"
  using scan_total [of init_state ps] by (auto simp: segment_def)

lemma digit_not_sign: "isdigit c \<Longrightarrow> c \<noteq> CHR ''+'' \<and> c \<noteq> CHR ''-'' \<and> c \<noteq> CHR ''/''"
  by (auto simp: isdigit_def)

lemma zfill_digits:
  assumes "list_all isdigit n"
  shows "zfill 3 n = replicate (3 - length n) CHR ''0'' @ n"
proof (cases n)
  case Nil
  then show ?thesis by (simp add: zfill_def)
next
  case (Cons c cs)
  with assms have "isdigit c" by simp
  then show ?thesis
    using Cons digit_not_sign [of c] by (simp add: zfill_def)
qed

lemma zfill_head:
  assumes "list_all isdigit n"
  shows "zfill 3 n \<noteq> [] \<and> hd (zfill 3 n) \<noteq> CHR ''/''"
proof (cases "3 \<le> length n")
  case True
  then have "n \<noteq> []" by auto
  then have "isdigit (hd n)" using assms by (cases n) auto
  then show ?thesis
    using True \<open>n \<noteq> []\<close> digit_not_sign [of "hd n"] by (simp add: zfill_def)
next
  case False
  then have "replicate (3 - length n) CHR ''0'' = CHR ''0'' # replicate (2 - length n) CHR ''0''"
    by (cases "3 - length n") (auto simp: numeral_3_eq_3 numeral_2_eq_2)
  then show ?thesis
    unfolding zfill_digits [OF assms] by simp
qed

lemma join_output:
  assumes "f \<noteq> []" "hd f \<noteq> CHR ''/''"
  shows "os_path_join OUTPUT_FOLDER f = ''markdown_poems/'' @ f"
  using assms by (simp add: os_path_join_def OUTPUT_FOLDER_def)

lemma poem_path_wf:
  assumes "well_formed p"
  shows "os_path_join OUTPUT_FOLDER (poem_filename p) =
           ''markdown_poems/'' @ replicate (3 - length (number p)) CHR ''0'' @ number p @ ''_''
           @ (case title p of
                None \<Rightarrow> ''Untitled''
              | Some t \<Rightarrow>
                  take 50 (map (\<lambda>c. if c = CHR '' '' then CHR ''_'' else c)
                    (strip (filter (\<lambda>c. c \<notin> set [CHR ''<'', CHR ''>'', CHR '':'', CHR 0x22,
                               CHR ''/'', CHR 0x5C, CHR ''|'', CHR ''?'', CHR ''*'']) t))))
           @ ''.md''"
proof -
  have d: "list_all isdigit (number p)" and t: "title p \<noteq> Some []"
    using assms by (simp_all add: well_formed_def)
  have s: "sanitize_filename (title p) =
             (case title p of
                None \<Rightarrow> ''Untitled''
              | Some t \<Rightarrow>
                  take 50 (map (\<lambda>c. if c = CHR '' '' then CHR ''_'' else c)
                    (strip (filter (\<lambda>c. c \<notin> set [CHR ''<'', CHR ''>'', CHR '':'', CHR 0x22,
                               CHR ''/'', CHR 0x5C, CHR ''|'', CHR ''?'', CHR ''*'']) t))))"
    using t
    by (cases "title p")
       (simp_all add: sanitize_filename_def replace_space_def re_sub_invalid_def invalid_char_def)
  have "poem_filename p \<noteq> [] \<and> hd (poem_filename p) \<noteq> CHR ''/''"
    using zfill_head [OF d] by (simp add: poem_filename_def)
  then have "os_path_join OUTPUT_FOLDER (poem_filename p) = ''markdown_poems/'' @ poem_filename p"
    using join_output by blast
  then show ?thesis
    unfolding poem_filename_def zfill_digits [OF d] s by simp
qed

lemma convert_paths:
  assumes "segment paragraphs = Inr s"
  shows "\<exists>w. convert_word_to_md (Docx paragraphs) = Inr w \<and>
           map fst (writes w) =
             (if front_matter s = [] then [] else [''markdown_poems/00_Front_Matter.md''])
             @ map (\<lambda>p. os_path_join OUTPUT_FOLDER (poem_filename p)) (filter has_content (poems s))"
proof -
  have j: "os_path_join OUTPUT_FOLDER ''00_Front_Matter.md'' = ''markdown_poems/00_Front_Matter.md''"
    by (simp add: os_path_join_def OUTPUT_FOLDER_def)
  show ?thesis
    by (simp add: convert_word_to_md_def assms save_poems_eq save_front_matter_def
        empty_world_def j comp_def)
qed

section \<open>The claims\<close>

text \<open>
  Claim C1. On the paragraphs \<^verbatim>\<open>Intro text\<close>, an empty one, \<^verbatim>\<open>1\<close>, \<^verbatim>\<open>First\<close>,
  \<^verbatim>\<open>hello world\<close>, an empty one, \<^verbatim>\<open>Urangani T.M\<close>, \<^verbatim>\<open>2\<close>, \<^verbatim>\<open>Second\<close>, \<^verbatim>\<open>goodbye\<close>
  the scan yields the front matter and two poems, the first titled \<^verbatim>\<open>First\<close> with the
  lines \<^verbatim>\<open>First\<close>, \<^verbatim>\<open>hello world\<close>, a stanza break and the signature flag, the second
  titled \<^verbatim>\<open>Second\<close> with the lines \<^verbatim>\<open>Second\<close>, \<^verbatim>\<open>goodbye\<close> and no signature; the run
  writes \<^verbatim>\<open>00_Front_Matter.md\<close> containing \<^verbatim>\<open>Intro text\<close>, \<^verbatim>\<open>001_First.md\<close> ending with the
  signature, and \<^verbatim>\<open>002_Second.md\<close> without one.
\<close>

theorem end_to_end_scenario:
  "segment [''Intro text'', '''', ''1'', ''First'', ''hello world'', '''', ''Urangani T.M'',
            ''2'', ''Second'', ''goodbye'']
   = Inr \<lparr>poems =
            [\<lparr>number = ''1'', title = Some ''First'',
              lines = [''First'', ''hello world'', ''''], has_author_sig = True\<rparr>,
             \<lparr>number = ''2'', title = Some ''Second'',
              lines = [''Second'', ''goodbye''], has_author_sig = False\<rparr>],
          front_matter = [''Intro text'', ''''],
          current_poem = Some \<lparr>number = ''2'', title = Some ''Second'',
              lines = [''Second'', ''goodbye''], has_author_sig = False\<rparr>,
          first_poem_found = True\<rparr>
   \<and> convert_word_to_md
       (Docx [''Intro text'', '''', ''1'', ''First'', ''hello world'', '''', ''Urangani T.M'',
              ''2'', ''Second'', ''goodbye''])
   = Inr \<lparr>console = [Reading ''Reality-a-colorful-illusion.docx'', Saved ''00_Front_Matter.md'',
                     Saved ''001_First.md'', Saved ''002_Second.md'',
                     Finished 2 ''markdown_poems''],
          dirs = [''markdown_poems''],
          writes =
            [(''markdown_poems/00_Front_Matter.md'',
              ''# Front Matter\<newline>\<newline>Intro text  \<newline>  \<newline>''),
             (''markdown_poems/001_First.md'',
              ''---\<newline>title: '' @ [CHR 0x22] @ ''First'' @ [CHR 0x22]
              @ ''\<newline>author: '' @ [CHR 0x22] @ ''Urangani T.M'' @ [CHR 0x22]
              @ ''\<newline>id: 1\<newline>---\<newline>\<newline># First\<newline>\<newline>''
              @ ''First  \<newline>hello world  \<newline>\<newline>''
              @ ''\<newline>\<newline>*Urangani T.M*''),
             (''markdown_poems/002_Second.md'',
              ''---\<newline>title: '' @ [CHR 0x22] @ ''Second'' @ [CHR 0x22]
              @ ''\<newline>author: '' @ [CHR 0x22] @ ''Urangani T.M'' @ [CHR 0x22]
              @ ''\<newline>id: 2\<newline>---\<newline>\<newline># Second\<newline>\<newline>''
              @ ''Second  \<newline>goodbye  \<newline>'')]\<rparr>"
  by code_simp

text \<open>
  Claim C9. When the input file does not exist, the run prints the error message and
  returns normally: no directory is created and no file is written.
\<close>

theorem missing_input_aborts:
  "convert_word_to_md Missing =
     Inr \<lparr>console = [ErrorNotFound ''Reality-a-colorful-illusion.docx''], dirs = [], writes = []\<rparr>"
  by (simp add: convert_word_to_md_def empty_world_def INPUT_FILE_def)

text \<open>
  Claim C2. A text made of whitespace, then one or more digits, then at most one dot, then
  whitespace is exactly what \<^verbatim>\<open>is_poem_number\<close> accepts; on such a paragraph the first run
  of digits is what \<^verbatim>\<open>re.search\<close> extracts and what becomes the \<^verbatim>\<open>number\<close> of the poem that
  is started; and a text with a character that is neither a digit, nor a dot, nor
  whitespace is rejected.
\<close>

theorem marker_recognition:
  "(is_poem_number text \<longleftrightarrow>
      (\<exists>ws ds dot ws'. text = ws @ ds @ dot @ ws' \<and> list_all isspace ws \<and> ds \<noteq> [] \<and>
         list_all isdigit ds \<and> (dot = [] \<or> dot = ''.'') \<and> list_all isspace ws'))
   \<and> (list_all isspace ws \<and> ds \<noteq> [] \<and> list_all isdigit ds \<and> (dot = [] \<or> dot = ''.'') \<and>
        list_all isspace ws' \<longrightarrow>
          is_poem_number (ws @ ds @ dot @ ws') \<and>
          re_search [OneOrMore isdigit] (ws @ ds @ dot @ ws') = Some ds \<and>
          process_para s (ws @ ds @ dot @ ws') =
            Inr (s\<lparr>poems := (case current_poem s of None \<Rightarrow> poems s | Some cp \<Rightarrow> poems s @ [cp]),
                   first_poem_found := True,
                   current_poem :=
                     Some \<lparr>number = ds, title = None, lines = [], has_author_sig = False\<rparr>\<rparr>))
   \<and> (c \<in> set other \<and> \<not> isdigit c \<and> c \<noteq> CHR ''.'' \<and> \<not> isspace c \<longrightarrow> \<not> is_poem_number other)"
proof (intro conjI impI)
  show "is_poem_number text \<longleftrightarrow>
      (\<exists>ws ds dot ws'. text = ws @ ds @ dot @ ws' \<and> list_all isspace ws \<and> ds \<noteq> [] \<and>
         list_all isdigit ds \<and> (dot = [] \<or> dot = ''.'') \<and> list_all isspace ws')"
    by (rule is_poem_number_iff)
next
  assume a: "list_all isspace ws \<and> ds \<noteq> [] \<and> list_all isdigit ds \<and> (dot = [] \<or> dot = ''.'') \<and>
        list_all isspace ws'"
  then show "is_poem_number (ws @ ds @ dot @ ws')"
    unfolding is_poem_number_iff by blast
next
  assume a: "list_all isspace ws \<and> ds \<noteq> [] \<and> list_all isdigit ds \<and> (dot = [] \<or> dot = ''.'') \<and>
        list_all isspace ws'"
  have nd: "list_all (\<lambda>c. \<not> isdigit c) ws"
    using a space_not_digit by (auto simp: list_all_iff)
  have "dot @ ws' = [] \<or> \<not> isdigit (hd (dot @ ws'))"
  proof (cases "dot = []")
    case True
    then show ?thesis using a space_not_digit by (cases ws') auto
  next
    case False
    then have "hd (dot @ ws') = CHR ''.''" using a by auto
    then show ?thesis by (simp add: isdigit_def)
  qed
  from re_search_digits [OF nd _ _ this, of ds] a
  show "re_search [OneOrMore isdigit] (ws @ ds @ dot @ ws') = Some ds" by simp
next
  assume a: "list_all isspace ws \<and> ds \<noteq> [] \<and> list_all isdigit ds \<and> (dot = [] \<or> dot = ''.'') \<and>
        list_all isspace ws'"
  then have st: "strip (ws @ ds @ dot @ ws') = ds @ dot"
    using strip_marker by blast
  have m: "is_poem_number (ds @ dot)"
    unfolding is_poem_number_iff using a by (intro exI [of _ "[]"] exI [of _ ds] exI [of _ dot]) simp
  have n: "re_search [OneOrMore isdigit] (ds @ dot) = Some ds"
    by (rule digits_of_marker) (use a in auto)
  show "process_para s (ws @ ds @ dot @ ws') =
            Inr (s\<lparr>poems := (case current_poem s of None \<Rightarrow> poems s | Some cp \<Rightarrow> poems s @ [cp]),
                   first_poem_found := True,
                   current_poem :=
                     Some \<lparr>number = ds, title = None, lines = [], has_author_sig = False\<rparr>\<rparr>)"
    by (simp add: process_para_def st m n del: append_assoc)
next
  assume a: "c \<in> set other \<and> \<not> isdigit c \<and> c \<noteq> CHR ''.'' \<and> \<not> isspace c"
  show "\<not> is_poem_number other"
  proof
    assume "is_poem_number other"
    then obtain ws ds dot ws' where
      d: "other = ws @ ds @ dot @ ws'" "list_all isspace ws" "ds \<noteq> []"
         "list_all isdigit ds" "dot = [] \<or> dot = ''.''" "list_all isspace ws'"
      unfolding is_poem_number_iff by blast
    from a have "c \<in> set ws \<union> set ds \<union> set dot \<union> set ws'"
      unfolding d(1) by simp
    then show False
      using a d(2,4,5,6) by (auto simp: list_all_iff)
  qed
qed

theorem marker_recognition_witness:
  "is_poem_number ''  12. '' \<and> re_search [OneOrMore isdigit] ''  12. '' = Some ''12''
   \<and> process_para init_state ''  12. '' =
       Inr \<lparr>poems = [], front_matter = [],
            current_poem = Some \<lparr>number = ''12'', title = None, lines = [], has_author_sig = False\<rparr>,
            first_poem_found = True\<rparr>
   \<and> CHR ''a'' \<in> set ''1a'' \<and> \<not> is_poem_number ''1a''"
proof -
  have h: "list_all isspace ''  '' \<and> ''12'' \<noteq> [] \<and> list_all isdigit ''12'' \<and>
           (''.'' = [] \<or> ''.'' = ''.'') \<and> list_all isspace '' ''"
    by (simp add: isspace_def isdigit_def)
  have g: "CHR ''a'' \<in> set ''1a'' \<and> \<not> isdigit CHR ''a'' \<and> CHR ''a'' \<noteq> CHR ''.'' \<and> \<not> isspace CHR ''a''"
    by (simp add: isspace_def isdigit_def)
  note t = marker_recognition [of "''  12. ''" "''  ''" "''12''" "''.''" "'' ''" init_state
      "CHR ''a''" "''1a''"]
  have eq: "''  '' @ ''12'' @ ''.'' @ '' '' = ''  12. ''"
    by simp
  have r: "init_state\<lparr>poems := (case current_poem init_state of None \<Rightarrow> poems init_state
                                   | Some cp \<Rightarrow> poems init_state @ [cp]),
                       first_poem_found := True,
                       current_poem :=
                         Some \<lparr>number = ''12'', title = None, lines = [], has_author_sig = False\<rparr>\<rparr>
           = \<lparr>poems = [], front_matter = [],
              current_poem = Some \<lparr>number = ''12'', title = None, lines = [], has_author_sig = False\<rparr>,
              first_poem_found = True\<rparr>"
    by (simp add: init_state_def)
  have 2: "is_poem_number (''  '' @ ''12'' @ ''.'' @ '' '') \<and>
           re_search [OneOrMore isdigit] (''  '' @ ''12'' @ ''.'' @ '' '') = Some ''12'' \<and>
           process_para init_state (''  '' @ ''12'' @ ''.'' @ '' '') =
             Inr (init_state\<lparr>poems := (case current_poem init_state of None \<Rightarrow> poems init_state
                                   | Some cp \<Rightarrow> poems init_state @ [cp]),
                       first_poem_found := True,
                       current_poem :=
                         Some \<lparr>number = ''12'', title = None, lines = [], has_author_sig = False\<rparr>\<rparr>)"
    using t h by blast
  have 3: "\<not> is_poem_number ''1a''"
    using t g by blast
  from 2 3 g show ?thesis
    unfolding eq r by blast
qed

text \<open>
  Claim C6, as stated, fails where the marker is \<^verbatim>\<open>0\<close>: the marker is recognised and the
  poem's number is \<^verbatim>\<open>0\<close>, which is not a positive integer.
\<close>

theorem number_not_positive_counterexample:
  "is_poem_number (strip ''0'')
   \<and> process_para init_state ''0'' =
       Inr \<lparr>poems = [], front_matter = [],
            current_poem = Some \<lparr>number = ''0'', title = None, lines = [], has_author_sig = False\<rparr>,
            first_poem_found = True\<rparr>
   \<and> \<not> 0 < decimal_value ''0''"
  by code_simp

text \<open>
  Claim C6, amended. For every recognised marker, the stripped paragraph is a non-empty
  string of digits, possibly followed by one dot, and the new poem's \<^verbatim>\<open>number\<close> is that
  string of digits as written (it may be zero and may have leading zeros); the \<^verbatim>\<open>id\<close> line
  of the metadata block carries the \<^verbatim>\<open>number\<close> unchanged.
\<close>

theorem marker_number_as_written:
  "(is_poem_number (strip para) \<longrightarrow>
      (\<exists>ds. ds \<noteq> [] \<and> list_all isdigit ds \<and> (strip para = ds \<or> strip para = ds @ ''.'') \<and>
         process_para s para =
           Inr (s\<lparr>poems := (case current_poem s of None \<Rightarrow> poems s | Some cp \<Rightarrow> poems s @ [cp]),
                  first_poem_found := True,
                  current_poem :=
                    Some \<lparr>number = ds, title = None, lines = [], has_author_sig = False\<rparr>\<rparr>)))
   \<and> (\<exists>body. poem_text p =
         ''---\<newline>title: '' @ [CHR 0x22] @ title_or (title p) ''Untitled'' @ [CHR 0x22]
         @ ''\<newline>author: '' @ [CHR 0x22] @ AUTHOR_NAME @ [CHR 0x22]
         @ ''\<newline>id: '' @ number p @ ''\<newline>---\<newline>\<newline>'' @ body)"
proof (intro conjI impI)
  assume "is_poem_number (strip para)"
  then show "\<exists>ds. ds \<noteq> [] \<and> list_all isdigit ds \<and> (strip para = ds \<or> strip para = ds @ ''.'') \<and>
         process_para s para =
           Inr (s\<lparr>poems := (case current_poem s of None \<Rightarrow> poems s | Some cp \<Rightarrow> poems s @ [cp]),
                  first_poem_found := True,
                  current_poem :=
                    Some \<lparr>number = ds, title = None, lines = [], has_author_sig = False\<rparr>\<rparr>)"
    by (rule process_para_marker)
next
  show "\<exists>body. poem_text p =
         ''---\<newline>title: '' @ [CHR 0x22] @ title_or (title p) ''Untitled'' @ [CHR 0x22]
         @ ''\<newline>author: '' @ [CHR 0x22] @ AUTHOR_NAME @ [CHR 0x22]
         @ ''\<newline>id: '' @ number p @ ''\<newline>---\<newline>\<newline>'' @ body"
    by (simp add: poem_text_def)
qed

theorem marker_number_as_written_witness:
  "is_poem_number (strip '' 007. '')
   \<and> (\<exists>ds. ds \<noteq> [] \<and> list_all isdigit ds \<and> (strip '' 007. '' = ds \<or> strip '' 007. '' = ds @ ''.'') \<and>
         process_para init_state '' 007. '' =
           Inr \<lparr>poems = [], front_matter = [],
                current_poem = Some \<lparr>number = ds, title = None, lines = [], has_author_sig = False\<rparr>,
                first_poem_found = True\<rparr>)
   \<and> process_para init_state '' 007. '' =
           Inr \<lparr>poems = [], front_matter = [],
                current_poem = Some \<lparr>number = ''007'', title = None, lines = [], has_author_sig = False\<rparr>,
                first_poem_found = True\<rparr>"
proof -
  have h: "is_poem_number (strip '' 007. '')"
    by code_simp
  have e: "process_para init_state '' 007. '' =
           Inr \<lparr>poems = [], front_matter = [],
                current_poem = Some \<lparr>number = ''007'', title = None, lines = [], has_author_sig = False\<rparr>,
                first_poem_found = True\<rparr>"
    by code_simp
  show ?thesis
    using marker_number_as_written [of "'' 007. ''" init_state
        "\<lparr>number = ''007'', title = None, lines = [], has_author_sig = False\<rparr>"] h e
    by (simp add: init_state_def)
qed

text \<open>
  Claim C4. Inside a poem, a paragraph whose stripped text is the author name sets
  \<^verbatim>\<open>has_author_sig\<close> on the current poem and changes nothing else, so the paragraph is not
  added to \<^verbatim>\<open>lines\<close>; and the file of a poem with \<^verbatim>\<open>has_author_sig\<close> ends, after a line end,
  with two newlines and the author name between asterisks, with no newline after it.
\<close>

theorem author_signature:
  "(first_poem_found s \<and> current_poem s = Some cp \<and> strip para = AUTHOR_NAME \<longrightarrow>
      process_para s para = Inr (s\<lparr>current_poem := Some (cp\<lparr>has_author_sig := True\<rparr>)\<rparr>))
   \<and> (has_author_sig p \<longrightarrow>
        (\<exists>pre. poem_text p = pre @ ''\<newline>'' @ ''\<newline>\<newline>*Urangani T.M*'') \<and>
        last (poem_text p) = CHR ''*'')"
proof (intro conjI impI)
  assume a: "first_poem_found s \<and> current_poem s = Some cp \<and> strip para = AUTHOR_NAME"
  then have "\<not> is_poem_number (strip para)"
    using author_not_marker by simp
  from process_para_content [OF this, of s cp] a
  show "process_para s para = Inr (s\<lparr>current_poem := Some (cp\<lparr>has_author_sig := True\<rparr>)\<rparr>)"
    by simp
next
  assume "has_author_sig p"
  then show "\<exists>pre. poem_text p = pre @ ''\<newline>'' @ ''\<newline>\<newline>*Urangani T.M*''"
    by (rule poem_text_signed)
next
  assume "has_author_sig p"
  then obtain pre where "poem_text p = pre @ ''\<newline>'' @ ''\<newline>\<newline>*Urangani T.M*''"
    using poem_text_signed by blast
  then show "last (poem_text p) = CHR ''*''"
    by simp
qed

theorem author_signature_witness:
  "strip ''  Urangani T.M '' = AUTHOR_NAME
   \<and> process_para
       \<lparr>poems = [], front_matter = [],
        current_poem = Some \<lparr>number = ''1'', title = Some ''First'', lines = [''First''],
                             has_author_sig = False\<rparr>,
        first_poem_found = True\<rparr> ''  Urangani T.M ''
     = Inr \<lparr>poems = [], front_matter = [],
            current_poem = Some \<lparr>number = ''1'', title = Some ''First'', lines = [''First''],
                                 has_author_sig = True\<rparr>,
            first_poem_found = True\<rparr>
   \<and> (\<exists>pre. poem_text \<lparr>number = ''1'', title = Some ''First'', lines = [''First''],
                         has_author_sig = True\<rparr>
        = pre @ ''\<newline>'' @ ''\<newline>\<newline>*Urangani T.M*'')
   \<and> last (poem_text \<lparr>number = ''1'', title = Some ''First'', lines = [''First''],
                       has_author_sig = True\<rparr>) = CHR ''*''"
proof -
  let ?cp = "\<lparr>number = ''1'', title = Some ''First'', lines = [''First''], has_author_sig = False\<rparr>"
  let ?s = "\<lparr>poems = [], front_matter = [], current_poem = Some ?cp, first_poem_found = True\<rparr>"
  let ?p = "\<lparr>number = ''1'', title = Some ''First'', lines = [''First''], has_author_sig = True\<rparr>"
  have h: "strip ''  Urangani T.M '' = AUTHOR_NAME"
    by code_simp
  note t = author_signature [of ?s ?cp "''  Urangani T.M ''" ?p]
  have 1: "process_para ?s ''  Urangani T.M '' =
             Inr (?s\<lparr>current_poem := Some (?cp\<lparr>has_author_sig := True\<rparr>)\<rparr>)"
    using t h by simp
  have 2: "(\<exists>pre. poem_text ?p = pre @ ''\<newline>'' @ ''\<newline>\<newline>*Urangani T.M*'') \<and>
           last (poem_text ?p) = CHR ''*''"
    using t by simp
  from h 1 2 show ?thesis by simp
qed

text \<open>
  Claim C3. After a marker, over paragraphs none of which is a marker, the title of the
  poem is the stripped text of the first paragraph that is neither blank nor the author
  signature, and \<^term>\<open>None\<close> when there is none; \<^verbatim>\<open>lines\<close> holds every paragraph but the
  signatures, so the paragraph that gave the title is among them; and the poem goes into
  \<^verbatim>\<open>poems\<close> as it is, at the end of the input or at the next marker. After the marker \<^verbatim>\<open>1\<close>,
  the paragraphs empty, two spaces, \<^verbatim>\<open>Sunset Over the Bay\<close>, \<^verbatim>\<open>line two\<close> give the title
  \<^verbatim>\<open>Sunset Over the Bay\<close> and all four as lines.
\<close>

theorem title_extraction:
  "(is_poem_number (strip m) \<and> list_all (\<lambda>p. \<not> is_poem_number (strip p)) ps \<longrightarrow>
      (\<exists>s' cp. scan s (m # ps) = Inr s' \<and> current_poem s' = Some cp \<and>
         title cp = map_option strip (find (\<lambda>p. strip p \<noteq> [] \<and> strip p \<noteq> AUTHOR_NAME) ps) \<and>
         lines cp = filter (\<lambda>p. strip p \<noteq> AUTHOR_NAME) ps \<and>
         (\<forall>p. find (\<lambda>p. strip p \<noteq> [] \<and> strip p \<noteq> AUTHOR_NAME) ps = Some p \<longrightarrow>
              title cp = Some (strip p) \<and> p \<in> set (lines cp)) \<and>
         poems (add_last_poem s') = poems s' @ [cp] \<and>
         (\<forall>m'. is_poem_number (strip m') \<longrightarrow>
            (\<exists>s''. process_para s' m' = Inr s'' \<and> poems s'' = poems s' @ [cp]))))
   \<and> scan init_state [''1'', '''', ''  '', ''Sunset Over the Bay'', ''line two''] =
       Inr \<lparr>poems = [], front_matter = [],
            current_poem = Some \<lparr>number = ''1'', title = Some ''Sunset Over the Bay'',
                                 lines = ['''', ''  '', ''Sunset Over the Bay'', ''line two''],
                                 has_author_sig = False\<rparr>,
            first_poem_found = True\<rparr>"
proof (intro conjI impI)
  assume a: "is_poem_number (strip m) \<and> list_all (\<lambda>p. \<not> is_poem_number (strip p)) ps"
  let ?P = "\<lambda>p. strip p \<noteq> [] \<and> strip p \<noteq> AUTHOR_NAME"
  from a scan_poem [of m ps s] obtain ds where
    sc: "scan s (m # ps) =
             Inr (s\<lparr>poems := (case current_poem s of None \<Rightarrow> poems s | Some cp \<Rightarrow> poems s @ [cp]),
                    first_poem_found := True,
                    current_poem := Some
                      \<lparr>number = ds, title = map_option strip (find ?P ps),
                       lines = filter (\<lambda>p. strip p \<noteq> AUTHOR_NAME) ps,
                       has_author_sig = list_ex (\<lambda>p. strip p = AUTHOR_NAME) ps\<rparr>\<rparr>)"
      (is "_ = Inr ?s'")
    by blast
  let ?cp = "\<lparr>number = ds, title = map_option strip (find ?P ps),
              lines = filter (\<lambda>p. strip p \<noteq> AUTHOR_NAME) ps,
              has_author_sig = list_ex (\<lambda>p. strip p = AUTHOR_NAME) ps\<rparr>"
  have c: "current_poem ?s' = Some ?cp" by simp
  have t: "\<forall>p. find ?P ps = Some p \<longrightarrow> title ?cp = Some (strip p) \<and> p \<in> set (lines ?cp)"
    by (auto simp: find_Some_iff)
  have l: "poems (add_last_poem ?s') = poems ?s' @ [?cp]"
    by (simp add: add_last_poem_def)
  have n: "\<forall>m'. is_poem_number (strip m') \<longrightarrow>
            (\<exists>s''. process_para ?s' m' = Inr s'' \<and> poems s'' = poems ?s' @ [?cp])"
  proof (intro allI impI)
    fix m' assume "is_poem_number (strip m')"
    from process_para_marker [OF this, of ?s'] obtain s'' where
      "process_para ?s' m' = Inr s''" "poems s'' = poems ?s' @ [?cp]"
      by auto
    then show "\<exists>s''. process_para ?s' m' = Inr s'' \<and> poems s'' = poems ?s' @ [?cp]"
      by blast
  qed
  show "\<exists>s' cp. scan s (m # ps) = Inr s' \<and> current_poem s' = Some cp \<and>
         title cp = map_option strip (find ?P ps) \<and>
         lines cp = filter (\<lambda>p. strip p \<noteq> AUTHOR_NAME) ps \<and>
         (\<forall>p. find ?P ps = Some p \<longrightarrow> title cp = Some (strip p) \<and> p \<in> set (lines cp)) \<and>
         poems (add_last_poem s') = poems s' @ [cp] \<and>
         (\<forall>m'. is_poem_number (strip m') \<longrightarrow>
            (\<exists>s''. process_para s' m' = Inr s'' \<and> poems s'' = poems s' @ [cp]))"
    apply (rule exI [of _ ?s'])
    apply (rule exI [of _ ?cp])
    using sc c t l n apply (intro conjI)
          apply simp_all
    done
next
  show "scan init_state [''1'', '''', ''  '', ''Sunset Over the Bay'', ''line two''] =
       Inr \<lparr>poems = [], front_matter = [],
            current_poem = Some \<lparr>number = ''1'', title = Some ''Sunset Over the Bay'',
                                 lines = ['''', ''  '', ''Sunset Over the Bay'', ''line two''],
                                 has_author_sig = False\<rparr>,
            first_poem_found = True\<rparr>"
    by code_simp
qed

theorem title_extraction_witness:
  "is_poem_number (strip ''1'')
   \<and> list_all (\<lambda>p. \<not> is_poem_number (strip p)) ['''', ''  '', ''Sunset Over the Bay'', ''line two'']
   \<and> (\<exists>s' cp. scan init_state [''1'', '''', ''  '', ''Sunset Over the Bay'', ''line two''] = Inr s' \<and>
         current_poem s' = Some cp \<and> title cp = Some ''Sunset Over the Bay'' \<and>
         lines cp = ['''', ''  '', ''Sunset Over the Bay'', ''line two''])"
proof -
  let ?ps = "['''', ''  '', ''Sunset Over the Bay'', ''line two'']"
  have h: "is_poem_number (strip ''1'') \<and> list_all (\<lambda>p. \<not> is_poem_number (strip p)) ?ps"
    by code_simp
  have f: "map_option strip (find (\<lambda>p. strip p \<noteq> [] \<and> strip p \<noteq> AUTHOR_NAME) ?ps)
           = Some ''Sunset Over the Bay''"
    by code_simp
  have g: "filter (\<lambda>p. strip p \<noteq> AUTHOR_NAME) ?ps = ?ps"
    by code_simp
  from title_extraction [of "''1''" ?ps init_state] h obtain s' cp where
    "scan init_state (''1'' # ?ps) = Inr s'" "current_poem s' = Some cp"
    "title cp = map_option strip (find (\<lambda>p. strip p \<noteq> [] \<and> strip p \<noteq> AUTHOR_NAME) ?ps)"
    "lines cp = filter (\<lambda>p. strip p \<noteq> AUTHOR_NAME) ?ps"
    by blast
  then have "scan init_state (''1'' # ?ps) = Inr s' \<and> current_poem s' = Some cp \<and>
             title cp = Some ''Sunset Over the Bay'' \<and> lines cp = ?ps"
    unfolding f g by blast
  with h show ?thesis by blast
qed

text \<open>
  Claim C5. The loop that saves the poems writes one file, prints one line and counts one
  for each poem that has a line with a character that is not whitespace, in the order of the
  poems, and does nothing for a poem whose lines are all empty or whitespace.
\<close>

theorem emptiness_filter:
  "save_poems ps (w, n) =
     (w\<lparr>writes := writes w @
           map (\<lambda>p. (os_path_join OUTPUT_FOLDER (poem_filename p), poem_text p))
             (filter (\<lambda>p. \<not> list_all (list_all isspace) (lines p)) ps),
        console := console w @
           map (\<lambda>p. Saved (poem_filename p))
             (filter (\<lambda>p. \<not> list_all (list_all isspace) (lines p)) ps)\<rparr>,
      n + length (filter (\<lambda>p. \<not> list_all (list_all isspace) (lines p)) ps))"
  unfolding save_poems_eq has_content_fun ..

theorem emptiness_filter_witness:
  "save_poems
     [\<lparr>number = ''1'', title = None, lines = ['''', '' '', ''  ''], has_author_sig = True\<rparr>,
      \<lparr>number = ''2'', title = Some ''B'', lines = ['''', ''B''], has_author_sig = False\<rparr>]
     (empty_world, 0)
   = (\<lparr>console = [Saved ''002_B.md''], dirs = [],
       writes = [(''markdown_poems/002_B.md'',
                  poem_text \<lparr>number = ''2'', title = Some ''B'', lines = ['''', ''B''],
                             has_author_sig = False\<rparr>)]\<rparr>, 1)"
proof -
  let ?p1 = "\<lparr>number = ''1'', title = None, lines = ['''', '' '', ''  ''], has_author_sig = True\<rparr>"
  let ?p2 = "\<lparr>number = ''2'', title = Some ''B'', lines = ['''', ''B''], has_author_sig = False\<rparr>"
  have e: "filter (\<lambda>p. \<not> list_all (list_all isspace) (lines p)) [?p1, ?p2] = [?p2]"
    by (simp add: isspace_def)
  have f: "poem_filename ?p2 = ''002_B.md''"
    by code_simp
  have j: "os_path_join OUTPUT_FOLDER ''002_B.md'' = ''markdown_poems/002_B.md''"
    by code_simp
  show ?thesis
    unfolding emptiness_filter [of "[?p1, ?p2]" empty_world 0] e
    by (simp add: f j empty_world_def)
qed

text \<open>
  Claim C7. Where the input starts with paragraphs none of which is a marker, followed by
  the end of the input or by a marker, the front matter is these paragraphs, untrimmed,
  without the blank ones at their start: a blank paragraph after a kept one is kept. With
  no marker in the whole input there is no poem, and the run writes the front matter file
  alone, when the front matter is not empty.
\<close>

theorem front_matter_collection:
  "(list_all (\<lambda>p. \<not> is_poem_number (strip p)) pre \<and>
    (rest = [] \<or> is_poem_number (strip (hd rest))) \<longrightarrow>
      (\<exists>s. segment (pre @ rest) = Inr s \<and>
           front_matter s = dropWhile (\<lambda>p. strip p = []) pre \<and>
           (rest = [] \<longrightarrow> poems s = [] \<and> current_poem s = None)))
   \<and> (list_all (\<lambda>p. \<not> is_poem_number (strip p)) ps \<longrightarrow>
        convert_word_to_md (Docx ps) =
           Inr \<lparr>console = Reading INPUT_FILE #
                   (if dropWhile (\<lambda>p. strip p = []) ps = [] then []
                    else [Saved ''00_Front_Matter.md''])
                   @ [Finished 0 OUTPUT_FOLDER],
                dirs = [OUTPUT_FOLDER],
                writes =
                  (if dropWhile (\<lambda>p. strip p = []) ps = [] then []
                   else [(''markdown_poems/00_Front_Matter.md'',
                          front_matter_text (dropWhile (\<lambda>p. strip p = []) ps))])\<rparr>)"
  using segment_front [of pre rest] convert_no_marker [of ps] by blast

theorem front_matter_collection_witness:
  "list_all (\<lambda>p. \<not> is_poem_number (strip p)) ['''', '' '', '' Intro'', '''', ''more  '']
   \<and> is_poem_number (strip (hd [''1.'', ''Poem'']))
   \<and> (\<exists>s. segment ['''', '' '', '' Intro'', '''', ''more  '', ''1.'', ''Poem''] = Inr s \<and>
           front_matter s = ['' Intro'', '''', ''more  ''])
   \<and> convert_word_to_md (Docx ['''', '' '', '' Intro'', '''', ''more  '']) =
        Inr \<lparr>console = [Reading INPUT_FILE, Saved ''00_Front_Matter.md'', Finished 0 OUTPUT_FOLDER],
             dirs = [OUTPUT_FOLDER],
             writes = [(''markdown_poems/00_Front_Matter.md'',
                        ''# Front Matter\<newline>\<newline> Intro  \<newline>  \<newline>more    \<newline>'')]\<rparr>"
proof -
  let ?pre = "['''', '' '', '' Intro'', '''', ''more  '']"
  let ?rest = "[''1.'', ''Poem'']"
  have h1: "list_all (\<lambda>p. \<not> is_poem_number (strip p)) ?pre"
    by code_simp
  have h2: "is_poem_number (strip (hd ?rest))"
    by code_simp
  have d: "dropWhile (\<lambda>p. strip p = []) ?pre = ['' Intro'', '''', ''more  '']"
    by code_simp
  have t: "front_matter_text ['' Intro'', '''', ''more  ''] =
           ''# Front Matter\<newline>\<newline> Intro  \<newline>  \<newline>more    \<newline>''"
    by code_simp
  note inst = front_matter_collection [of ?pre ?rest ?pre]
  from inst h1 h2 have "\<exists>s. segment (?pre @ ?rest) = Inr s \<and>
           front_matter s = dropWhile (\<lambda>p. strip p = []) ?pre"
    by blast
  then have 1: "\<exists>s. segment ['''', '' '', '' Intro'', '''', ''more  '', ''1.'', ''Poem''] = Inr s \<and>
           front_matter s = ['' Intro'', '''', ''more  '']"
    unfolding d by simp
  from inst h1 have 2: "convert_word_to_md (Docx ?pre) =
        Inr \<lparr>console = [Reading INPUT_FILE, Saved ''00_Front_Matter.md'', Finished 0 OUTPUT_FOLDER],
             dirs = [OUTPUT_FOLDER],
             writes = [(''markdown_poems/00_Front_Matter.md'',
                        ''# Front Matter\<newline>\<newline> Intro  \<newline>  \<newline>more    \<newline>'')]\<rparr>"
    unfolding d t by simp
  from h1 h2 1 2 show ?thesis by blast
qed

text \<open>
  Claim C10. Where every paragraph after a marker is blank or, stripped, the author name,
  the poem has no title, its lines are the blank paragraphs alone, and its signature flag
  is set exactly when one of the paragraphs is the author name; the poem has no content, so
  the saving loop writes nothing for it, flag or no flag. A document made of such a marker
  and such paragraphs leaves no file at all.
\<close>

theorem signature_only_poem_dropped:
  "is_poem_number (strip m) \<and> list_all (\<lambda>p. strip p = [] \<or> strip p = AUTHOR_NAME) ps \<longrightarrow>
     (\<exists>s' cp. scan s (m # ps) = Inr s' \<and> current_poem s' = Some cp \<and>
        poems (add_last_poem s') = poems s' @ [cp] \<and>
        title cp = None \<and>
        lines cp = filter (\<lambda>p. strip p \<noteq> AUTHOR_NAME) ps \<and>
        list_all (\<lambda>l. strip l = []) (lines cp) \<and>
        has_author_sig cp = list_ex (\<lambda>p. strip p = AUTHOR_NAME) ps \<and>
        \<not> has_content cp \<and>
        save_poems [cp] (w, n) = (w, n))
     \<and> convert_word_to_md (Docx (m # ps)) =
         Inr \<lparr>console = [Reading INPUT_FILE, Finished 0 OUTPUT_FOLDER],
              dirs = [OUTPUT_FOLDER], writes = []\<rparr>"
proof (intro impI)
  assume a: "is_poem_number (strip m) \<and> list_all (\<lambda>p. strip p = [] \<or> strip p = AUTHOR_NAME) ps"
  then have m: "is_poem_number (strip m)"
    and ps: "list_all (\<lambda>p. strip p = [] \<or> strip p = AUTHOR_NAME) ps"
    by simp_all
  have nm: "list_all (\<lambda>p. \<not> is_poem_number (strip p)) ps"
    by (rule blank_or_author_not_marker [OF ps])
  let ?ls = "filter (\<lambda>p. strip p \<noteq> AUTHOR_NAME) ps"
  let ?sig = "list_ex (\<lambda>p. strip p = AUTHOR_NAME) ps"
  let ?cp = "\<lambda>ds. \<lparr>number = ds, title = None, lines = ?ls, has_author_sig = ?sig\<rparr>"
  have blank: "list_all (\<lambda>l. strip l = []) ?ls"
    by (rule signature_only_lines [OF ps])
  then have nc: "\<And>ds. \<not> has_content (?cp ds)"
    by (simp add: has_content_def list_ex_iff list_all_iff)
  have general: "\<exists>ds. scan t (m # ps) =
             Inr (t\<lparr>poems := (case current_poem t of None \<Rightarrow> poems t | Some cp \<Rightarrow> poems t @ [cp]),
                    first_poem_found := True, current_poem := Some (?cp ds)\<rparr>)" for t
    using scan_poem [OF m nm, of t]
    by (auto simp: signature_only_title [OF ps] simp del: scan.simps)
  from general [of s] obtain ds where
    sc: "scan s (m # ps) =
             Inr (s\<lparr>poems := (case current_poem s of None \<Rightarrow> poems s | Some cp \<Rightarrow> poems s @ [cp]),
                    first_poem_found := True, current_poem := Some (?cp ds)\<rparr>)"
      (is "_ = Inr ?s'")
    by blast
  have first: "\<exists>s' cp. scan s (m # ps) = Inr s' \<and> current_poem s' = Some cp \<and>
        poems (add_last_poem s') = poems s' @ [cp] \<and>
        title cp = None \<and>
        lines cp = ?ls \<and>
        list_all (\<lambda>l. strip l = []) (lines cp) \<and>
        has_author_sig cp = ?sig \<and>
        \<not> has_content cp \<and>
        save_poems [cp] (w, n) = (w, n)"
    apply (rule exI [of _ ?s'])
    apply (rule exI [of _ "?cp ds"])
    using sc blank nc [of ds] apply (intro conjI)
            apply (simp_all add: add_last_poem_def)
    done
  from general [of init_state] obtain ds0 where
    "scan init_state (m # ps) =
       Inr (init_state\<lparr>poems := [], first_poem_found := True, current_poem := Some (?cp ds0)\<rparr>)"
    by (auto simp: init_state_def simp del: scan.simps)
  then have seg: "segment (m # ps) =
       Inr \<lparr>poems = [?cp ds0], front_matter = [], current_poem = Some (?cp ds0),
            first_poem_found = True\<rparr>"
    by (simp add: segment_def add_last_poem_def init_state_def)
  have second: "convert_word_to_md (Docx (m # ps)) =
         Inr \<lparr>console = [Reading INPUT_FILE, Finished 0 OUTPUT_FOLDER],
              dirs = [OUTPUT_FOLDER], writes = []\<rparr>"
    using nc [of ds0]
    by (simp add: convert_word_to_md_def seg save_front_matter_def empty_world_def)
  from first second show "(\<exists>s' cp. scan s (m # ps) = Inr s' \<and> current_poem s' = Some cp \<and>
        poems (add_last_poem s') = poems s' @ [cp] \<and>
        title cp = None \<and>
        lines cp = ?ls \<and>
        list_all (\<lambda>l. strip l = []) (lines cp) \<and>
        has_author_sig cp = ?sig \<and>
        \<not> has_content cp \<and>
        save_poems [cp] (w, n) = (w, n))
     \<and> convert_word_to_md (Docx (m # ps)) =
         Inr \<lparr>console = [Reading INPUT_FILE, Finished 0 OUTPUT_FOLDER],
              dirs = [OUTPUT_FOLDER], writes = []\<rparr>"
    by blast
qed

theorem signature_only_poem_dropped_witness:
  "is_poem_number (strip ''3.'')
   \<and> list_all (\<lambda>p. strip p = [] \<or> strip p = AUTHOR_NAME) ['''', '' Urangani T.M'', ''  '']
   \<and> (\<exists>s' cp. scan init_state [''3.'', '''', '' Urangani T.M'', ''  ''] = Inr s' \<and>
         current_poem s' = Some cp \<and> lines cp = ['''', ''  ''] \<and> has_author_sig cp \<and>
         \<not> has_content cp)
   \<and> convert_word_to_md (Docx [''3.'', '''', '' Urangani T.M'', ''  '']) =
         Inr \<lparr>console = [Reading INPUT_FILE, Finished 0 OUTPUT_FOLDER],
              dirs = [OUTPUT_FOLDER], writes = []\<rparr>"
proof -
  let ?ps = "['''', '' Urangani T.M'', ''  '']"
  have h: "is_poem_number (strip ''3.'') \<and>
           list_all (\<lambda>p. strip p = [] \<or> strip p = AUTHOR_NAME) ?ps"
    by code_simp
  have f: "filter (\<lambda>p. strip p \<noteq> AUTHOR_NAME) ?ps = ['''', ''  '']"
    by code_simp
  have g: "list_ex (\<lambda>p. strip p = AUTHOR_NAME) ?ps"
    by code_simp
  note inst = signature_only_poem_dropped [of "''3.''" ?ps init_state empty_world 0]
  from inst h obtain s' cp where
    "scan init_state (''3.'' # ?ps) = Inr s'" "current_poem s' = Some cp"
    "lines cp = filter (\<lambda>p. strip p \<noteq> AUTHOR_NAME) ?ps"
    "has_author_sig cp = list_ex (\<lambda>p. strip p = AUTHOR_NAME) ?ps"
    "\<not> has_content cp"
    by blast
  then have 1: "\<exists>s' cp. scan init_state [''3.'', '''', '' Urangani T.M'', ''  ''] = Inr s' \<and>
         current_poem s' = Some cp \<and> lines cp = ['''', ''  ''] \<and> has_author_sig cp \<and>
         \<not> has_content cp"
    unfolding f using g by blast
  from inst h have 2: "convert_word_to_md (Docx (''3.'' # ?ps)) =
         Inr \<lparr>console = [Reading INPUT_FILE, Finished 0 OUTPUT_FOLDER],
              dirs = [OUTPUT_FOLDER], writes = []\<rparr>"
    by blast
  from h 1 2 show ?thesis by blast
qed

text \<open>
  Claim C8. For every document, the files written are the front matter file, when there is
  front matter, and then, for each poem with content in order, the file whose name is the
  number with zeros on the left up to three characters, an underscore, the sanitized title
  and \<^verbatim>\<open>.md\<close>, in the output folder. The sanitized title is \<^verbatim>\<open>Untitled\<close> when there is no title;
  otherwise the title without the nine forbidden characters, stripped, with underscores for
  spaces, cut at 50 characters. The title \<^verbatim>\<open>My: Poem/Title?\<close> with number \<^verbatim>\<open>7\<close> gives
  \<^verbatim>\<open>007_My_PoemTitle.md\<close>.
\<close>

theorem filename_format:
  "(\<exists>s w. segment paragraphs = Inr s \<and> convert_word_to_md (Docx paragraphs) = Inr w \<and>
      map fst (writes w) =
        (if front_matter s = [] then [] else [''markdown_poems/00_Front_Matter.md''])
        @ map (\<lambda>p. ''markdown_poems/''
                 @ replicate (3 - length (number p)) CHR ''0'' @ number p @ ''_''
                 @ (case title p of
                      None \<Rightarrow> ''Untitled''
                    | Some t \<Rightarrow>
                        take 50 (map (\<lambda>c. if c = CHR '' '' then CHR ''_'' else c)
                          (strip (filter (\<lambda>c. c \<notin> set [CHR ''<'', CHR ''>'', CHR '':'', CHR 0x22,
                                     CHR ''/'', CHR 0x5C, CHR ''|'', CHR ''?'', CHR ''*'']) t))))
                 @ ''.md'')
            (filter has_content (poems s)))
   \<and> poem_filename \<lparr>number = ''7'', title = Some ''My: Poem/Title?'', lines = ls,
                     has_author_sig = b\<rparr> = ''007_My_PoemTitle.md''"
proof
  obtain s where s: "segment paragraphs = Inr s"
    using segment_total by blast
  from convert_paths [OF s] obtain w where
    w: "convert_word_to_md (Docx paragraphs) = Inr w"
       "map fst (writes w) =
          (if front_matter s = [] then [] else [''markdown_poems/00_Front_Matter.md''])
          @ map (\<lambda>p. os_path_join OUTPUT_FOLDER (poem_filename p)) (filter has_content (poems s))"
    by blast
  let ?name = "\<lambda>p. ''markdown_poems/''
                 @ replicate (3 - length (number p)) CHR ''0'' @ number p @ ''_''
                 @ (case title p of
                      None \<Rightarrow> ''Untitled''
                    | Some t \<Rightarrow>
                        take 50 (map (\<lambda>c. if c = CHR '' '' then CHR ''_'' else c)
                          (strip (filter (\<lambda>c. c \<notin> set [CHR ''<'', CHR ''>'', CHR '':'', CHR 0x22,
                                     CHR ''/'', CHR 0x5C, CHR ''|'', CHR ''?'', CHR ''*'']) t))))
                 @ ''.md''"
  have "list_all well_formed (filter has_content (poems s))"
    using segment_wf [OF s] by (simp add: list_all_iff)
  then have "map (\<lambda>p. os_path_join OUTPUT_FOLDER (poem_filename p)) (filter has_content (poems s))
             = map ?name (filter has_content (poems s))"
    by (intro map_cong refl poem_path_wf) (simp add: list_all_iff)
  with w(2) have "map fst (writes w) =
        (if front_matter s = [] then [] else [''markdown_poems/00_Front_Matter.md''])
        @ map ?name (filter has_content (poems s))"
    by simp
  with s w(1) show "\<exists>s w. segment paragraphs = Inr s \<and> convert_word_to_md (Docx paragraphs) = Inr w \<and>
      map fst (writes w) =
        (if front_matter s = [] then [] else [''markdown_poems/00_Front_Matter.md''])
        @ map ?name (filter has_content (poems s))"
    by blast
next
  show "poem_filename \<lparr>number = ''7'', title = Some ''My: Poem/Title?'', lines = ls,
                     has_author_sig = b\<rparr> = ''007_My_PoemTitle.md''"
    by (simp add: poem_filename_def zfill_def sanitize_filename_def replace_space_def
        re_sub_invalid_def invalid_char_def strip_def isspace_def eval_nat_numeral)
qed

theorem filename_format_witness:
  "\<exists>w. convert_word_to_md (Docx [''intro'', ''7'', ''My: Poem/Title?'', ''8.'', '' '']) = Inr w \<and>
       map fst (writes w) =
         [''markdown_poems/00_Front_Matter.md'', ''markdown_poems/007_My_PoemTitle.md'']"
proof -
  let ?ps = "[''intro'', ''7'', ''My: Poem/Title?'', ''8.'', '' '']"
  let ?p7 = "\<lparr>number = ''7'', title = Some ''My: Poem/Title?'', lines = [''My: Poem/Title?''],
              has_author_sig = False\<rparr>"
  let ?p8 = "\<lparr>number = ''8'', title = None, lines = ['' ''], has_author_sig = False\<rparr>"
  have seg: "segment ?ps =
     Inr \<lparr>poems = [?p7, ?p8], front_matter = [''intro''], current_poem = Some ?p8,
          first_poem_found = True\<rparr>"
    by code_simp
  let ?S = "\<lparr>poems = [?p7, ?p8], front_matter = [''intro''], current_poem = Some ?p8,
              first_poem_found = True\<rparr>"
  have rhs: "(if front_matter ?S = [] then [] else [''markdown_poems/00_Front_Matter.md''])
        @ map (\<lambda>p. ''markdown_poems/''
                 @ replicate (3 - length (number p)) CHR ''0'' @ number p @ ''_''
                 @ (case title p of
                      None \<Rightarrow> ''Untitled''
                    | Some t \<Rightarrow>
                        take 50 (map (\<lambda>c. if c = CHR '' '' then CHR ''_'' else c)
                          (strip (filter (\<lambda>c. c \<notin> set [CHR ''<'', CHR ''>'', CHR '':'', CHR 0x22,
                                     CHR ''/'', CHR 0x5C, CHR ''|'', CHR ''?'', CHR ''*'']) t))))
                 @ ''.md'')
            (filter has_content (poems ?S))
        = [''markdown_poems/00_Front_Matter.md'', ''markdown_poems/007_My_PoemTitle.md'']"
    by code_simp
  from filename_format [of ?ps] obtain s w where
    sw: "segment ?ps = Inr s" "convert_word_to_md (Docx ?ps) = Inr w"
      "map fst (writes w) =
        (if front_matter s = [] then [] else [''markdown_poems/00_Front_Matter.md''])
        @ map (\<lambda>p. ''markdown_poems/''
                 @ replicate (3 - length (number p)) CHR ''0'' @ number p @ ''_''
                 @ (case title p of
                      None \<Rightarrow> ''Untitled''
                    | Some t \<Rightarrow>
                        take 50 (map (\<lambda>c. if c = CHR '' '' then CHR ''_'' else c)
                          (strip (filter (\<lambda>c. c \<notin> set [CHR ''<'', CHR ''>'', CHR '':'', CHR 0x22,
                                     CHR ''/'', CHR 0x5C, CHR ''|'', CHR ''?'', CHR ''*'']) t))))
                 @ ''.md'')
            (filter has_content (poems s))"
    by blast
  from sw(1) seg have s: "s = ?S"
    by simp
  have m: "map fst (writes w) =
         [''markdown_poems/00_Front_Matter.md'', ''markdown_poems/007_My_PoemTitle.md'']"
    using sw(3) unfolding s rhs .
  show ?thesis
    by (rule exI [of _ w]) (rule conjI [OF sw(2) m])
qed

end
